theory Spec2Isabelle
  imports Main "HOL-Library.AList" "HOL-Library.Multiset"
begin

section \<open>Data model (PPA.py, lines 8-33)\<close>

text \<open>
  The dataclasses of the planner. The Python fields \<open>id\<close> and \<open>type\<close> are renamed
  (\<open>agent_id\<close>, \<open>act_id\<close>, \<open>act_type\<close>); \<open>required_agents\<close> is the dictionary
  \<open>{"min": int, "max": int}\<close>, kept as the two integer fields \<open>req_min\<close> and \<open>req_max\<close>.
  Dataclass equality compares all fields, as record equality does.
\<close>

record Agent =
  agent_id :: string
  constraints :: "string list"

record Action =
  act_id :: string
  act_type :: string
  objects :: "string list"
  description :: string
  req_min :: int
  req_max :: int
  depends_on :: "string list"
  transfers_objects_to :: "string list"

record ActionAssignment =
  action_id :: string
  assigned_agents :: "Agent list"
  stage :: int
  asg_description :: string

text \<open>
  A Python \<open>dict\<close> whose iteration order is observable is an association list with
  distinct keys in insertion order: \<open>AList.update\<close> overwrites in place or appends,
  as \<open>d[k] = v\<close> does.
\<close>

record PlanningResult =
  stages :: "(int \<times> ActionAssignment list) list"
  action_dependencies :: "(string \<times> string list) list"

text \<open>
  The exceptions the program can raise. \<open>MissingDependency\<close> and \<open>CyclicDependency\<close>
  are the two \<open>ValueError\<close>s of \<open>validate_dependencies\<close>, \<open>SchedulingStarvation\<close>
  is the \<open>Exception\<close> of the fallback pass with the unassigned keys it prints; the other
  three are raised by the interpreter (\<open>assigned[0]\<close> on an empty list, \<open>next\<close> on an
  exhausted generator, a missing dictionary key).
\<close>

datatype error =
  MissingDependency string string
  | CyclicDependency string
  | SchedulingStarvation "string list"
  | IndexError
  | StopIteration
  | KeyError

section \<open>Dependency validation (lines 38-61)\<close>

text \<open>Lines 39-43: the first pair (action, dependency) whose dependency names no action.\<close>

definition missing_dependency :: "Action list \<Rightarrow> (string \<times> string) option" where
  "missing_dependency actions =
     find (\<lambda>(aid, dep). dep \<notin> set (map act_id actions))
       (concat (map (\<lambda>a. map (Pair (act_id a)) (depends_on a)) actions))"

text \<open>
  Lines 44-56. \<open>has_cycle\<close> and its \<open>for\<close> loop over the dependencies call each other;
  both are one function on a tagged argument: \<open>HasCycle aid\<close> is the call
  \<open>has_cycle(aid, visited, path)\<close>, \<open>ForDeps aid deps\<close> is the rest of the loop
  \<open>for dep in a.depends_on\<close> of the call for \<open>aid\<close>, followed by \<open>path.remove(aid)\<close>.
  The two sets are mutated in place by the source, so they are threaded through and
  returned with the answer. \<open>None\<close> is a call that does not return.
\<close>

datatype dfs_call = HasCycle string | ForDeps string "string list"

partial_function (option) dfs ::
  "Action list \<Rightarrow> dfs_call \<Rightarrow> string set \<Rightarrow> string set
     \<Rightarrow> (error + bool \<times> string set \<times> string set) option" where
  "dfs actions call visited path =
     (case call of
        HasCycle aid \<Rightarrow>
          if aid \<in> path then Some (Inr (True, visited, path))
          else if aid \<in> visited then Some (Inr (False, visited, path))
          else (case find (\<lambda>x. act_id x = aid) actions of
                  None \<Rightarrow> Some (Inl StopIteration)
                | Some a \<Rightarrow>
                    dfs actions (ForDeps aid (depends_on a)) (insert aid visited) (insert aid path))
      | ForDeps aid [] \<Rightarrow> Some (Inr (False, visited, path - {aid}))
      | ForDeps aid (dep # rest) \<Rightarrow>
          Option.bind (dfs actions (HasCycle dep) visited path)
            (\<lambda>r. case r of
                    Inl e \<Rightarrow> Some (Inl e)
                  | Inr (found, visited', path') \<Rightarrow>
                      if found then Some (Inr (True, visited', path'))
                      else dfs actions (ForDeps aid rest) visited' path'))"

definition has_cycle ::
  "Action list \<Rightarrow> string \<Rightarrow> string set \<Rightarrow> string set
     \<Rightarrow> (error + bool \<times> string set \<times> string set) option" where
  "has_cycle actions aid visited path = dfs actions (HasCycle aid) visited path"

text \<open>Lines 57-61: the loop over the actions, with the shared \<open>visited\<close> set.\<close>

fun cycle_scan :: "Action list \<Rightarrow> Action list \<Rightarrow> string set \<Rightarrow> (error + unit) option" where
  "cycle_scan actions [] visited = Some (Inr ())"
| "cycle_scan actions (a # rest) visited =
     (if act_id a \<notin> visited then
        (case has_cycle actions (act_id a) visited {} of
           None \<Rightarrow> None
         | Some (Inl e) \<Rightarrow> Some (Inl e)
         | Some (Inr (found, visited', path')) \<Rightarrow>
             if found then Some (Inl (CyclicDependency (act_id a)))
             else cycle_scan actions rest visited')
      else cycle_scan actions rest visited)"

definition validate_dependencies :: "Action list \<Rightarrow> (error + unit) option" where
  "validate_dependencies actions =
     (case missing_dependency actions of
        Some (aid, dep) \<Rightarrow> Some (Inl (MissingDependency aid dep))
      | None \<Rightarrow> cycle_scan actions actions {})"

section \<open>Module state and helpers (lines 66-91)\<close>

text \<open>
  \<open>recent_handler\<close> (line 67) is a module-level dictionary from object to agent. It is
  only read by key and written by key, so it is a map; every function that touches it
  takes it and returns it.
\<close>

type_synonym handler_map = "string \<rightharpoonup> Agent"

text \<open>\<open>d.get(k, default)\<close> on an association list.\<close>

definition dict_get :: "('k \<times> 'v) list \<Rightarrow> 'k \<Rightarrow> 'v \<Rightarrow> 'v" where
  "dict_get d k dflt = (case map_of d k of None \<Rightarrow> dflt | Some v \<Rightarrow> v)"

text \<open>The slice \<open>xs[:k]\<close>; a negative \<open>k\<close> counts from the end.\<close>

definition slice_to :: "int \<Rightarrow> 'a list \<Rightarrow> 'a list" where
  "slice_to k xs = (if 0 \<le> k then take (nat k) xs else take (length xs - nat (- k)) xs)"

text \<open>Lines 72-78.\<close>

definition get_free_agents ::
  "int \<Rightarrow> (int \<times> ActionAssignment list) list \<Rightarrow> Agent list \<Rightarrow> Agent list" where
  "get_free_agents stg stage_assignments available_agents =
     (let used_ids = set (concat (map (\<lambda>assignment. map agent_id (assigned_agents assignment))
                                    (dict_get stage_assignments stg [])))
      in filter (\<lambda>agent. agent_id agent \<notin> used_ids) available_agents)"

text \<open>Lines 80-81; the tag is the text \<open>can't_\<close> followed by the action type.\<close>

definition can_do_action :: "Agent \<Rightarrow> string \<Rightarrow> bool" where
  "can_do_action agent action_type \<longleftrightarrow>
     (''can'' @ [CHR 0x27] @ ''t_'' @ action_type) \<notin> set (constraints agent)"

text \<open>
  Lines 83-91. \<open>assigned[0]\<close> is evaluated once per object, so an empty agent list
  raises \<open>IndexError\<close> at the first object, and not at all when there is no object.
\<close>

fun track_objects :: "string list \<Rightarrow> Agent list \<Rightarrow> handler_map \<Rightarrow> error + handler_map" where
  "track_objects [] assigned rh = Inr rh"
| "track_objects (obj # objs) assigned rh =
     (case assigned of
        [] \<Rightarrow> Inl IndexError
      | agent # _ \<Rightarrow> track_objects objs assigned (rh(obj \<mapsto> agent)))"

definition update_object_tracking ::
  "Action \<Rightarrow> Agent list \<Rightarrow> handler_map \<Rightarrow> error + handler_map" where
  "update_object_tracking action assigned rh =
     (if act_type action = ''fetch'' then track_objects (objects action) assigned rh
      else if act_type action = ''attach'' then track_objects (objects action) assigned rh
      else Inr rh)"

section \<open>Scheduling (lines 96-176)\<close>

text \<open>Lines 100-104: the children of an action, and how many it has.\<close>

definition reverse_dependencies :: "Action list \<Rightarrow> string \<Rightarrow> Action list" where
  "reverse_dependencies actions aid =
     concat (map (\<lambda>a. map (\<lambda>dep. a) (filter (\<lambda>dep. dep = aid) (depends_on a))) actions)"

definition dependency_count :: "Action list \<Rightarrow> string \<Rightarrow> int" where
  "dependency_count actions aid = int (length (reverse_dependencies actions aid))"

text \<open>
  \<open>sorted(xs, key=lambda a: dependency_count[a.id], reverse=True)\<close>: Python's sort is
  stable, also with \<open>reverse=True\<close>, and so is \<open>sort_key\<close> on the negated key.
\<close>

definition sort_by_count :: "Action list \<Rightarrow> Action list \<Rightarrow> Action list" where
  "sort_by_count actions xs = sort_key (\<lambda>a. - dependency_count actions (act_id a)) xs"

text \<open>Lines 106-108 and the module state: what \<open>schedule_task\<close> reads and writes.\<close>

record sched_state =
  assigned_actions :: "string \<rightharpoonup> int"
  stage_assignments :: "(int \<times> ActionAssignment list) list"
  unassigned_actions :: "(string \<times> Action) list"
  recent_handler :: handler_map

text \<open>Lines 118-123: the preferred agents, in the order of the task's objects.\<close>

definition preferred_agents :: "handler_map \<Rightarrow> string list \<Rightarrow> Agent list \<Rightarrow> Agent list" where
  "preferred_agents rh objs free_agents =
     fold (\<lambda>obj preferred.
             case rh obj of
               None \<Rightarrow> preferred
             | Some agent \<Rightarrow>
                 if agent \<in> set free_agents \<and> agent \<notin> set preferred
                 then preferred @ [agent] else preferred)
          objs []"

text \<open>
  Lines 115-134, one pass of the body of \<open>while True\<close> for the free and qualified
  agents of the candidate stage: the agents to assign, or \<open>None\<close> for
  \<open>stage += 1; continue\<close>.
\<close>

definition try_stage :: "handler_map \<Rightarrow> Action \<Rightarrow> Agent list \<Rightarrow> Agent list option" where
  "try_stage rh task free_agents =
     (let required_count = req_min task;
          preferred = preferred_agents rh (objects task) free_agents
      in if required_count \<le> int (length preferred) then Some (slice_to required_count preferred)
         else
           let assigned = preferred;
               others = filter (\<lambda>agent. agent \<notin> set assigned) free_agents
           in if required_count \<le> int (length assigned) + int (length others)
              then Some (assigned @ slice_to (required_count - int (length assigned)) others)
              else None)"

text \<open>Lines 111-134: the stage search. It has no bound, so it is a partial function.\<close>

partial_function (option) stage_search ::
  "Agent list \<Rightarrow> (int \<times> ActionAssignment list) list \<Rightarrow> handler_map \<Rightarrow> Action \<Rightarrow> int
     \<Rightarrow> (int \<times> Agent list) option" where
  "stage_search available_agents sa rh task stg =
     (let free_agents = filter (\<lambda>agent. can_do_action agent (act_type task))
                          (get_free_agents stg sa available_agents)
      in case try_stage rh task free_agents of
           Some assigned \<Rightarrow> Some (stg, assigned)
         | None \<Rightarrow> stage_search available_agents sa rh task (stg + 1))"

text \<open>Lines 136-146: the assignment is recorded, then the handlers are updated.\<close>

definition record_assignment ::
  "Action \<Rightarrow> int \<Rightarrow> Agent list \<Rightarrow> sched_state \<Rightarrow> error + sched_state" where
  "record_assignment task stg assigned st =
     (let assignment = \<lparr>action_id = act_id task, assigned_agents = assigned, stage = stg,
                        asg_description = description task\<rparr>;
          sa = AList.update stg (dict_get (stage_assignments st) stg [] @ [assignment])
                 (stage_assignments st)
      in case update_object_tracking task assigned (recent_handler st) of
           Inl e \<Rightarrow> Inl e
         | Inr rh \<Rightarrow>
             Inr \<lparr>assigned_actions = (assigned_actions st)(act_id task \<mapsto> stg),
                  stage_assignments = sa,
                  unassigned_actions = AList.delete (act_id task) (unassigned_actions st),
                  recent_handler = rh\<rparr>)"

text \<open>Line 153: the guard of the loop over the children.\<close>

definition ready :: "sched_state \<Rightarrow> Action \<Rightarrow> bool" where
  "ready st child \<longleftrightarrow>
     act_id child \<in> fst ` set (unassigned_actions st) \<and>
     list_all (\<lambda>dep. assigned_actions st dep \<noteq> None) (depends_on child)"

text \<open>
  Lines 110-154. \<open>ScheduleTask task desired\<close> is the call \<open>schedule_task(task, desired)\<close>;
  \<open>ScheduleChildren children stg\<close> is the rest of its loop \<open>for child in children_sorted\<close>,
  which calls \<open>schedule_task(child, stage + 1)\<close>.
\<close>

datatype sched_call = ScheduleTask Action int | ScheduleChildren "Action list" int

partial_function (option) schedule ::
  "Action list \<Rightarrow> Agent list \<Rightarrow> sched_call \<Rightarrow> sched_state \<Rightarrow> (error + sched_state) option" where
  "schedule actions available_agents call st =
     (case call of
        ScheduleTask task desired_stage \<Rightarrow>
          (case stage_search available_agents (stage_assignments st) (recent_handler st)
                  task desired_stage of
             None \<Rightarrow> None
           | Some (stg, assigned) \<Rightarrow>
               (case record_assignment task stg assigned st of
                  Inl e \<Rightarrow> Some (Inl e)
                | Inr st' \<Rightarrow>
                    schedule actions available_agents
                      (ScheduleChildren
                         (sort_by_count actions (reverse_dependencies actions (act_id task)))
                         (stg + 1))
                      st'))
      | ScheduleChildren [] child_stage \<Rightarrow> Some (Inr st)
      | ScheduleChildren (child # rest) child_stage \<Rightarrow>
          if ready st child then
            Option.bind (schedule actions available_agents (ScheduleTask child child_stage) st)
              (\<lambda>r. case r of
                      Inl e \<Rightarrow> Some (Inl e)
                    | Inr st' \<Rightarrow>
                        schedule actions available_agents (ScheduleChildren rest child_stage) st')
          else schedule actions available_agents (ScheduleChildren rest child_stage) st)"

definition schedule_task ::
  "Action list \<Rightarrow> Agent list \<Rightarrow> Action \<Rightarrow> int \<Rightarrow> sched_state \<Rightarrow> (error + sched_state) option" where
  "schedule_task actions available_agents task desired_stage st =
     schedule actions available_agents (ScheduleTask task desired_stage) st"

text \<open>Lines 157-161: the first pass over the dependency-free fetch actions.\<close>

fun schedule_roots ::
  "Action list \<Rightarrow> Agent list \<Rightarrow> Action list \<Rightarrow> sched_state \<Rightarrow> (error + sched_state) option" where
  "schedule_roots actions available_agents [] st = Some (Inr st)"
| "schedule_roots actions available_agents (task # rest) st =
     (if act_id task \<in> fst ` set (unassigned_actions st) then
        (case schedule_task actions available_agents task 1 st of
           None \<Rightarrow> None
         | Some (Inl e) \<Rightarrow> Some (Inl e)
         | Some (Inr st') \<Rightarrow> schedule_roots actions available_agents rest st')
      else schedule_roots actions available_agents rest st)"

text \<open>
  Line 171: \<open>max(assigned_actions[dep] for dep in task.depends_on) + 1\<close>, or 1 without
  dependencies; a dependency that is no key raises \<open>KeyError\<close>.
\<close>

definition desired_stage_of :: "sched_state \<Rightarrow> Action \<Rightarrow> error + int" where
  "desired_stage_of st task =
     (case depends_on task of
        [] \<Rightarrow> Inr 1
      | dep # deps \<Rightarrow>
          (case those (map (assigned_actions st) (dep # deps)) of
             None \<Rightarrow> Inl KeyError
           | Some stgs \<Rightarrow> Inr (fold max (tl stgs) (hd stgs) + 1)))"

text \<open>Lines 169-172: the loop over the actions that one scan found available.\<close>

fun schedule_available ::
  "Action list \<Rightarrow> Agent list \<Rightarrow> Action list \<Rightarrow> sched_state \<Rightarrow> (error + sched_state) option" where
  "schedule_available actions available_agents [] st = Some (Inr st)"
| "schedule_available actions available_agents (task # rest) st =
     (if act_id task \<in> fst ` set (unassigned_actions st) then
        (case desired_stage_of st task of
           Inl e \<Rightarrow> Some (Inl e)
         | Inr desired \<Rightarrow>
             (case schedule_task actions available_agents task desired st of
                None \<Rightarrow> None
              | Some (Inl e) \<Rightarrow> Some (Inl e)
              | Some (Inr st') \<Rightarrow> schedule_available actions available_agents rest st'))
      else schedule_available actions available_agents rest st)"

text \<open>Line 165: the unassigned actions whose dependencies are all assigned.\<close>

definition available_actions :: "sched_state \<Rightarrow> Action list" where
  "available_actions st =
     filter (\<lambda>a. list_all (\<lambda>dep. assigned_actions st dep \<noteq> None) (depends_on a))
       (map snd (unassigned_actions st))"

text \<open>Lines 164-172: the fallback pass.\<close>

partial_function (option) fallback ::
  "Action list \<Rightarrow> Agent list \<Rightarrow> sched_state \<Rightarrow> (error + sched_state) option" where
  "fallback actions available_agents st =
     (if unassigned_actions st = [] then Some (Inr st)
      else if available_actions st = []
      then Some (Inl (SchedulingStarvation (map fst (unassigned_actions st))))
      else Option.bind
             (schedule_available actions available_agents
                (sort_by_count actions (available_actions st)) st)
             (\<lambda>r. case r of
                     Inl e \<Rightarrow> Some (Inl e)
                   | Inr st' \<Rightarrow> fallback actions available_agents st'))"

text \<open>
  Lines 96-176. The call takes the module's \<open>recent_handler\<close> as it finds it and leaves
  it as the last assignment wrote it, so the map is an argument and part of the result.
\<close>

definition initial_state :: "Action list \<Rightarrow> handler_map \<Rightarrow> sched_state" where
  "initial_state actions rh =
     \<lparr>assigned_actions = Map.empty,
      stage_assignments = [],
      unassigned_actions = fold (\<lambda>a d. AList.update (act_id a) a d) actions [],
      recent_handler = rh\<rparr>"

definition root_tasks :: "Action list \<Rightarrow> Action list" where
  "root_tasks actions = filter (\<lambda>a. depends_on a = [] \<and> act_type a = ''fetch'') actions"

definition plan_parallel_actions ::
  "Action list \<Rightarrow> Agent list \<Rightarrow> handler_map \<Rightarrow> (error + PlanningResult \<times> handler_map) option" where
  "plan_parallel_actions actions available_agents rh =
     (case validate_dependencies actions of
        None \<Rightarrow> None
      | Some (Inl e) \<Rightarrow> Some (Inl e)
      | Some (Inr _) \<Rightarrow>
          (case schedule_roots actions available_agents
                  (sort_by_count actions (root_tasks actions)) (initial_state actions rh) of
             None \<Rightarrow> None
           | Some (Inl e) \<Rightarrow> Some (Inl e)
           | Some (Inr st) \<Rightarrow>
               (case fallback actions available_agents st of
                  None \<Rightarrow> None
                | Some (Inl e) \<Rightarrow> Some (Inl e)
                | Some (Inr st') \<Rightarrow>
                    Some (Inr (\<lparr>stages = stage_assignments st',
                                action_dependencies =
                                  fold (\<lambda>a d. AList.update (act_id a) (depends_on a) d) actions []\<rparr>,
                               recent_handler st')))))"

section \<open>The example of the source (lines 199-236)\<close>

definition chair_agents :: "Agent list" where
  "chair_agents =
     [\<lparr>agent_id = ''A'', constraints = []\<rparr>,
      \<lparr>agent_id = ''B'', constraints = []\<rparr>,
      \<lparr>agent_id = ''C'', constraints = []\<rparr>]"

text \<open>Every action of the example has \<open>required_agents = {"min": 1, "max": 1}\<close>.\<close>

definition chair_action ::
  "string \<Rightarrow> string \<Rightarrow> string list \<Rightarrow> string \<Rightarrow> string list \<Rightarrow> Action" where
  "chair_action aid ty objs descr deps =
     \<lparr>act_id = aid, act_type = ty, objects = objs, description = descr, req_min = 1,
      req_max = 1, depends_on = deps, transfers_objects_to = []\<rparr>"

definition chair_actions :: "Action list" where
  "chair_actions =
     [chair_action ''1'' ''fetch'' [''chair_back''] ''Fetch chair back'' [],
      chair_action ''2'' ''fetch'' [''chair_seat''] ''Fetch chair seat'' [],
      chair_action ''3'' ''fetch'' [''leg1''] ''Fetch leg 1'' [],
      chair_action ''4'' ''fetch'' [''leg2''] ''Fetch leg 2'' [],
      chair_action ''5'' ''fetch'' [''leg3''] ''Fetch leg 3'' [],
      chair_action ''6'' ''fetch'' [''leg4''] ''Fetch leg 4'' [],
      chair_action ''7'' ''attach'' [''chair_back'', ''chair_seat'']
        ''Attach chair back and chair seat together'' [''1'', ''2''],
      chair_action ''8'' ''attach'' [''leg1'', ''chair_seat'']
        ''Attach leg 1 to chair seat'' [''3'', ''7''],
      chair_action ''9'' ''attach'' [''leg2'', ''chair_seat'']
        ''Attach leg 2 to chair seat'' [''4'', ''7''],
      chair_action ''10'' ''attach'' [''leg3'', ''chair_seat'']
        ''Attach leg 3 to chair seat'' [''5'', ''7''],
      chair_action ''11'' ''attach'' [''leg4'', ''chair_seat'']
        ''Attach leg 4 to chair seat'' [''6'', ''7'']]"

section \<open>Properties of a plan\<close>

text \<open>The call returns a result, and the result satisfies \<open>P\<close>.\<close>

definition returns_with ::
  "(PlanningResult \<Rightarrow> bool) \<Rightarrow> (error + PlanningResult \<times> handler_map) option \<Rightarrow> bool" where
  "returns_with P r = (case r of Some (Inr (res, rh)) \<Rightarrow> P res | _ \<Rightarrow> False)"

definition all_assignments :: "(int \<times> ActionAssignment list) list \<Rightarrow> ActionAssignment list" where
  "all_assignments sa = concat (map snd sa)"

text \<open>The stage numbers of the assignments of an action, and their agent identifiers.\<close>

definition stages_of_action :: "PlanningResult \<Rightarrow> string \<Rightarrow> int list" where
  "stages_of_action res aid =
     map stage (filter (\<lambda>asg. action_id asg = aid) (all_assignments (stages res)))"

definition agents_of_action :: "PlanningResult \<Rightarrow> string \<Rightarrow> string list list" where
  "agents_of_action res aid =
     map (\<lambda>asg. map agent_id (assigned_agents asg))
       (filter (\<lambda>asg. action_id asg = aid) (all_assignments (stages res)))"

text \<open>
  Every assignment of every action is in a later stage than every assignment of each of
  the action's dependencies.
\<close>

definition dependencies_precede :: "Action list \<Rightarrow> PlanningResult \<Rightarrow> bool" where
  "dependencies_precede actions res =
     list_all (\<lambda>a.
       list_all (\<lambda>dep.
         list_all (\<lambda>stg. list_all (\<lambda>dep_stg. dep_stg < stg) (stages_of_action res dep))
           (stages_of_action res (act_id a)))
         (depends_on a))
       actions"

text \<open>No agent identifier is in two of the lists.\<close>

fun pairwise_disjoint :: "'a list list \<Rightarrow> bool" where
  "pairwise_disjoint [] = True"
| "pairwise_disjoint (xs # xss) =
     (list_all (\<lambda>ys. list_all (\<lambda>x. x \<notin> set ys) xs) xss \<and> pairwise_disjoint xss)"

definition agent_ids_of :: "ActionAssignment list \<Rightarrow> string list list" where
  "agent_ids_of asgs = map (\<lambda>asg. map agent_id (assigned_agents asg)) asgs"

definition stage_agents_disjoint :: "(int \<times> ActionAssignment list) list \<Rightarrow> bool" where
  "stage_agents_disjoint sa = list_all (\<lambda>(stg, asgs). pairwise_disjoint (agent_ids_of asgs)) sa"

text \<open>Lines 113-114: the agents that are free in a stage and may do the task.\<close>

definition qualified_free ::
  "Agent list \<Rightarrow> (int \<times> ActionAssignment list) list \<Rightarrow> Action \<Rightarrow> int \<Rightarrow> Agent list" where
  "qualified_free available_agents sa task stg =
     filter (\<lambda>agent. can_do_action agent (act_type task)) (get_free_agents stg sa available_agents)"

text \<open>An agent that may not attach, and an attach action for one agent.\<close>

definition no_attach_agent :: Agent where
  "no_attach_agent = \<lparr>agent_id = ''A'', constraints = [''can'' @ [CHR 0x27] @ ''t_attach'']\<rparr>"

definition attach_action :: Action where
  "attach_action =
     \<lparr>act_id = ''7'', act_type = ''attach'', objects = [''chair_back'', ''chair_seat''],
      description = ''Attach chair back and chair seat together'', req_min = 1, req_max = 1,
      depends_on = [], transfers_objects_to = []\<rparr>"

definition empty_state :: sched_state where
  "empty_state = \<lparr>assigned_actions = Map.empty, stage_assignments = [],
                  unassigned_actions = [], recent_handler = Map.empty\<rparr>"

text \<open>
  Two agents and three actions of the example: both fetches, and the attach action that
  touches both fetched objects.
\<close>

definition two_agents :: "Agent list" where
  "two_agents = [\<lparr>agent_id = ''A'', constraints = []\<rparr>, \<lparr>agent_id = ''B'', constraints = []\<rparr>]"

definition back_seat_actions :: "Action list" where
  "back_seat_actions =
     [chair_action ''1'' ''fetch'' [''chair_back''] ''Fetch chair back'' [],
      chair_action ''2'' ''fetch'' [''chair_seat''] ''Fetch chair seat'' [],
      chair_action ''7'' ''attach'' [''chair_back'', ''chair_seat'']
        ''Attach chair back and chair seat together'' [''1'', ''2'']]"

text \<open>A first call with the two fetches, and a second call with the second fetch alone.\<close>

definition first_call_actions :: "Action list" where
  "first_call_actions =
     [chair_action ''1'' ''fetch'' [''chair_back''] ''Fetch chair back'' [],
      chair_action ''2'' ''fetch'' [''chair_seat''] ''Fetch chair seat'' []]"

definition second_call_actions :: "Action list" where
  "second_call_actions =
     [chair_action ''2'' ''fetch'' [''chair_seat''] ''Fetch chair seat'' []]"

text \<open>The module's \<open>recent_handler\<close> after a call that returned.\<close>

definition handler_after :: "(error + PlanningResult \<times> handler_map) option \<Rightarrow> handler_map" where
  "handler_after r = (case r of Some (Inr (res, rh)) \<Rightarrow> rh | _ \<Rightarrow> Map.empty)"

text \<open>The handlers that the first two fetches of the example leave behind.\<close>

definition back_seat_handlers :: handler_map where
  "back_seat_handlers =
     [''chair_back'' \<mapsto> \<lparr>agent_id = ''A'', constraints = []\<rparr>,
      ''chair_seat'' \<mapsto> \<lparr>agent_id = ''B'', constraints = []\<rparr>]"



section \<open>Predicates of the proofs\<close>

text \<open>
  What a call of \<open>schedule\<close> may assume: \<open>schedule_task\<close> is only called for an input
  action whose identifier is still a key of \<open>unassigned_actions\<close>, and the children are
  input actions.
\<close>

definition call_ok :: "Action list \<Rightarrow> sched_call \<Rightarrow> sched_state \<Rightarrow> bool" where
  "call_ok actions call st =
     (case call of
        ScheduleTask task d \<Rightarrow> task \<in> set actions \<and> act_id task \<in> fst ` set (unassigned_actions st)
      | ScheduleChildren children stg \<Rightarrow> set children \<subseteq> set actions)"

text \<open>In the claim's words: the string \<open>can't_<type>\<close>.\<close>

definition disallowing_tag :: "string \<Rightarrow> string" where
  "disallowing_tag ty = ''can'' @ [CHR 0x27] @ ''t_'' @ ty"

text \<open>
  An assignment meets the requirement of an action: it has at least the minimum number
  of agents, exactly the minimum unless that is negative, and the tag that disallows the
  action's type is among the constraints of none of its agents.
\<close>

definition meets_requirement :: "Action \<Rightarrow> ActionAssignment \<Rightarrow> bool" where
  "meets_requirement a asg \<longleftrightarrow>
     req_min a \<le> int (length (assigned_agents asg)) \<and>
     (req_min a < 0 \<or> int (length (assigned_agents asg)) = req_min a) \<and>
     list_all (\<lambda>agent. disallowing_tag (act_type a) \<notin> set (constraints agent))
       (assigned_agents asg)"

text \<open>Every assignment meets the requirement of an input action with its identifier.\<close>

definition requirements_met :: "Action list \<Rightarrow> PlanningResult \<Rightarrow> bool" where
  "requirements_met actions res =
     list_all (\<lambda>asg. list_ex (\<lambda>a. act_id a = action_id asg \<and> meets_requirement a asg) actions)
       (all_assignments (stages res))"



text \<open>
  In the claim's words: none of the unassigned actions has all of its dependencies
  already assigned, that is, each of them has a dependency that is not assigned.
\<close>

definition none_ready :: "sched_state \<Rightarrow> bool" where
  "none_ready st \<longleftrightarrow>
     list_all (\<lambda>(aid, a). list_ex (\<lambda>dep. assigned_actions st dep = None) (depends_on a))
       (unassigned_actions st)"

text \<open>
  \<open>scan_reaches actions agents st st'\<close>: the fallback pass that starts a scan in state
  \<open>st\<close> starts a scan (the same or a later one) in state \<open>st'\<close>. A scan that finds
  unassigned actions of which one has all its dependencies assigned runs the loop of
  lines 169-172 and, when that returns, is followed by the next scan.
\<close>

inductive scan_reaches :: "Action list \<Rightarrow> Agent list \<Rightarrow> sched_state \<Rightarrow> sched_state \<Rightarrow> bool"
  for actions :: "Action list" and available_agents :: "Agent list" where
  scan_here: "scan_reaches actions available_agents st st"
| scan_next:
    "\<lbrakk>unassigned_actions st \<noteq> []; \<not> none_ready st;
      schedule_available actions available_agents
        (sort_by_count actions (available_actions st)) st = Some (Inr st1);
      scan_reaches actions available_agents st1 st2\<rbrakk>
     \<Longrightarrow> scan_reaches actions available_agents st st2"


text \<open>An action with its \<open>req_max\<close> field blanked.\<close>

definition erase_max :: "Action \<Rightarrow> Action" where
  "erase_max a = a\<lparr>req_max := 0\<rparr>"

text \<open>Two inputs that differ at most in the \<open>req_max\<close> fields of their actions.\<close>

definition same_but_max :: "Action list \<Rightarrow> Action list \<Rightarrow> bool" where
  "same_but_max actions' actions \<longleftrightarrow> map erase_max actions' = map erase_max actions"

text \<open>The same for the actions in a state and in a call of \<open>schedule\<close>.\<close>

definition erase_state :: "sched_state \<Rightarrow> sched_state" where
  "erase_state st =
     st\<lparr>unassigned_actions := map (\<lambda>(aid, a). (aid, erase_max a)) (unassigned_actions st)\<rparr>"

fun erase_call :: "sched_call \<Rightarrow> sched_call" where
  "erase_call (ScheduleTask task stg) = ScheduleTask (erase_max task) stg"
| "erase_call (ScheduleChildren children stg) = ScheduleChildren (map erase_max children) stg"

text \<open>An action whose minimum is a negative integer, and a roster of which one agent may not attach.\<close>

definition negative_min_action :: Action where
  "negative_min_action =
     \<lparr>act_id = ''n'', act_type = ''pick'', objects = [], description = ''Pick'', req_min = - 1,
      req_max = 1, depends_on = [], transfers_objects_to = []\<rparr>"

definition mixed_agents :: "Agent list" where
  "mixed_agents = [no_attach_agent, \<lparr>agent_id = ''B'', constraints = []\<rparr>]"

section \<open>Evaluation\<close>

declare dfs.simps [code] stage_search.simps [code] schedule.simps [code] fallback.simps [code]

text \<open>The plan of the example: stage by stage, each action with its agents.\<close>

lemma chair_plan:
  "returns_with
     (\<lambda>res. map (\<lambda>(stg, asgs). (stg, map (\<lambda>asg. (action_id asg, map agent_id (assigned_agents asg), stage asg)) asgs))
               (stages res) =
        [(1, [(''1'', [''A''], 1), (''2'', [''B''], 1), (''3'', [''C''], 1)]),
         (2, [(''7'', [''A''], 2), (''8'', [''C''], 2), (''4'', [''B''], 2)]),
         (3, [(''9'', [''B''], 3), (''5'', [''A''], 3), (''6'', [''C''], 3)]),
         (4, [(''10'', [''A''], 4), (''11'', [''C''], 4)])])
     (plan_parallel_actions chair_actions chair_agents Map.empty)"
  by code_simp

lemma chair_valid: "validate_dependencies chair_actions = Some (Inr ())"
  by code_simp

section \<open>The stage search\<close>

lemma preferred_fold_inv:
  "set acc \<subseteq> set free \<Longrightarrow> distinct acc \<Longrightarrow>
   set (fold (\<lambda>obj preferred. case rh obj of None \<Rightarrow> preferred
        | Some agent \<Rightarrow> if agent \<in> set free \<and> agent \<notin> set preferred then preferred @ [agent] else preferred) objs acc) \<subseteq> set free
   \<and> distinct (fold (\<lambda>obj preferred. case rh obj of None \<Rightarrow> preferred
        | Some agent \<Rightarrow> if agent \<in> set free \<and> agent \<notin> set preferred then preferred @ [agent] else preferred) objs acc)"
  by (induction objs arbitrary: acc) (auto split: option.splits)

lemma preferred_subset: "set (preferred_agents rh objs free) \<subseteq> set free"
  using preferred_fold_inv [of "[]" free rh objs] by (simp add: preferred_agents_def)

lemma preferred_distinct: "distinct (preferred_agents rh objs free)"
  using preferred_fold_inv [of "[]" free rh objs] by (simp add: preferred_agents_def)

lemma slice_to_subset: "set (slice_to k xs) \<subseteq> set xs"
  by (auto simp: slice_to_def dest: in_set_takeD)

lemma length_slice_to:
  "k \<le> int (length xs) \<Longrightarrow> int (length (slice_to k xs)) = (if 0 \<le> k then k else max 0 (int (length xs) + k))"
  by (auto simp: slice_to_def)

lemma try_stage_subset: "try_stage rh task free = Some assigned \<Longrightarrow> set assigned \<subseteq> set free"
  using preferred_subset [of rh "objects task" free] slice_to_subset
  by (fastforce simp: try_stage_def Let_def split: if_splits)

lemma try_stage_length:
  assumes "try_stage rh task free = Some assigned"
  shows "req_min task \<le> int (length assigned)" and "0 \<le> req_min task \<Longrightarrow> int (length assigned) = req_min task"
  using assms by (auto simp: try_stage_def Let_def length_slice_to split: if_splits)


lemma stage_search_unfold:
  "stage_search available_agents sa rh task stg =
     (case try_stage rh task (qualified_free available_agents sa task stg) of
        Some assigned \<Rightarrow> Some (stg, assigned)
      | None \<Rightarrow> stage_search available_agents sa rh task (stg + 1))"
  by (subst stage_search.simps) (simp add: qualified_free_def)

lemma stage_search_sound:
  assumes "stage_search available_agents sa rh task d = Some r"
  shows "d \<le> fst r \<and> try_stage rh task (qualified_free available_agents sa task (fst r)) = Some (snd r)"
proof (rule stage_search.raw_induct
    [where P = "\<lambda>ags sa rh task d r. d \<le> fst r \<and> try_stage rh task (qualified_free ags sa task (fst r)) = Some (snd r)",
     OF _ assms], goal_cases)
  case (1 f ags sa rh task stg r)
  show ?case
  proof (cases "try_stage rh task (qualified_free ags sa task stg)")
    case None
    with 1(2) have "f ags sa rh task (stg + 1) = Some r"
      by (simp add: qualified_free_def)
    from 1(1) [OF this] show ?thesis by simp
  next
    case (Some assigned)
    with 1(2) show ?thesis by (auto simp: qualified_free_def)
  qed
qed

lemma length_preferred_others:
  assumes "distinct ps" and "set ps \<subseteq> set xs"
  shows "length ps + length (filter (\<lambda>a. a \<notin> set ps) xs) \<le> length xs"
proof -
  have "length ps = card (set ps)" using assms(1) by (simp add: distinct_card)
  also have "set ps = set (filter (\<lambda>a. a \<in> set ps) xs)" using assms(2) by auto
  also have "card \<dots> \<le> length (filter (\<lambda>a. a \<in> set ps) xs)" by (rule card_length)
  finally have "length ps \<le> length (filter (\<lambda>a. a \<in> set ps) xs)" .
  moreover have "length (filter (\<lambda>a. a \<in> set ps) xs) + length (filter (\<lambda>a. a \<notin> set ps) xs) = length xs"
    by (rule sum_length_filter_compl)
  ultimately show ?thesis by linarith
qed

lemma try_stage_None_few:
  assumes "int (length free) < req_min task"
  shows "try_stage rh task free = None"
proof -
  let ?ps = "preferred_agents rh (objects task) free"
  have "length ?ps + length (filter (\<lambda>a. a \<notin> set ?ps) free) \<le> length free"
    by (rule length_preferred_others [OF preferred_distinct preferred_subset])
  with assms show ?thesis by (auto simp: try_stage_def Let_def)
qed

lemma length_qualified_free:
  "length (qualified_free available_agents sa task stg)
     \<le> length (filter (\<lambda>agent. can_do_action agent (act_type task)) available_agents)"
proof -
  have "qualified_free available_agents sa task stg =
        filter (\<lambda>agent. agent_id agent \<notin> set (concat (map (\<lambda>assignment. map agent_id (assigned_agents assignment)) (dict_get sa stg []))))
          (filter (\<lambda>agent. can_do_action agent (act_type task)) available_agents)"
    by (simp add: qualified_free_def get_free_agents_def conj_commute)
  then show ?thesis by (simp only: length_filter_le)
qed

lemma stage_search_None:
  assumes "\<And>s. try_stage rh task (qualified_free available_agents sa task s) = None"
  shows "stage_search available_agents sa rh task stg = None"
proof (cases "stage_search available_agents sa rh task stg")
  case (Some r)
  from stage_search_sound [OF this] assms show ?thesis by simp
qed simp

lemma card_preferred_others:
  "card (set xs) \<le> length ps + length (filter (\<lambda>a. a \<notin> set ps) xs)"
proof -
  have "set xs \<subseteq> set ps \<union> set (filter (\<lambda>a. a \<notin> set ps) xs)" by auto
  then have "card (set xs) \<le> card (set ps \<union> set (filter (\<lambda>a. a \<notin> set ps) xs))"
    by (intro card_mono) auto
  also have "\<dots> \<le> card (set ps) + card (set (filter (\<lambda>a. a \<notin> set ps) xs))"
    by (rule card_Un_le)
  also have "\<dots> \<le> length ps + length (filter (\<lambda>a. a \<notin> set ps) xs)"
    by (intro add_mono card_length)
  finally show ?thesis .
qed

lemma try_stage_Some_enough:
  assumes "req_min task \<le> int (card (set free))"
  shows "try_stage rh task free \<noteq> None"
  using assms card_preferred_others [of free "preferred_agents rh (objects task) free"]
  by (auto simp: try_stage_def Let_def)

lemma qualified_free_empty_stage:
  "dict_get sa e [] = [] \<Longrightarrow>
   qualified_free available_agents sa task e = filter (\<lambda>agent. can_do_action agent (act_type task)) available_agents"
  by (simp add: qualified_free_def get_free_agents_def)

lemma stage_search_reaches:
  assumes "try_stage rh task (qualified_free available_agents sa task e) \<noteq> None"
  shows "stg \<le> e \<Longrightarrow> nat (e - stg) = n \<Longrightarrow>
         \<exists>stg' assigned. stage_search available_agents sa rh task stg = Some (stg', assigned) \<and> stg \<le> stg' \<and> stg' \<le> e"
proof (induction n arbitrary: stg)
  case 0
  then have "stg = e" by simp
  with assms show ?case by (subst stage_search_unfold) auto
next
  case (Suc n)
  show ?case
  proof (cases "try_stage rh task (qualified_free available_agents sa task stg)")
    case (Some assigned)
    with Suc.prems show ?thesis by (subst stage_search_unfold) auto
  next
    case None
    from Suc.prems have "stg + 1 \<le> e" "nat (e - (stg + 1)) = n" by auto
    from Suc.IH [OF this] obtain stg' assigned where
      "stage_search available_agents sa rh task (stg + 1) = Some (stg', assigned)" "stg + 1 \<le> stg'" "stg' \<le> e"
      by blast
    with None show ?thesis by (subst stage_search_unfold) auto
  qed
qed

lemma empty_stage_exists:
  fixes sa :: "(int \<times> ActionAssignment list) list"
  shows "\<exists>e\<ge>stg. dict_get sa e [] = []"
proof -
  have "finite (dom (map_of sa))" by (rule finite_dom_map_of)
  moreover have "infinite {stg..}" by (rule infinite_Ici)
  ultimately have "\<not> {stg..} \<subseteq> dom (map_of sa)" using finite_subset by blast
  then obtain e where "stg \<le> e" "map_of sa e = None" by auto
  then show ?thesis by (auto simp: dict_get_def)
qed


section \<open>Claims\<close>

text \<open>
  C1 (the code does not do what the claim says). The claim: for every validated input for
  which a plan is returned, every assignment's stage is strictly greater than the stage
  of each dependency of its action. The example of the source passes validation and a
  plan is returned, but the plan puts action 8 in stage 2, the stage of its dependency 7:
  a child scheduled from \<open>schedule_task\<close> gets the stage after the parent that was
  scheduled last, not after all its parents, as the fallback pass computes it.
\<close>

theorem C1_chair_dependency_not_later:
  "validate_dependencies chair_actions = Some (Inr ()) \<and>
   returns_with (\<lambda>res. \<not> dependencies_precede chair_actions res \<and>
                       stages_of_action res ''7'' = [2] \<and> stages_of_action res ''8'' = [2])
     (plan_parallel_actions chair_actions chair_agents Map.empty)"
  by code_simp

lemma schedule_task_unfold:
  "schedule_task actions available_agents task desired_stage st =
     (case stage_search available_agents (stage_assignments st) (recent_handler st)
             task desired_stage of
        None \<Rightarrow> None
      | Some (stg, assigned) \<Rightarrow>
          (case record_assignment task stg assigned st of
             Inl e \<Rightarrow> Some (Inl e)
           | Inr st' \<Rightarrow>
               schedule actions available_agents
                 (ScheduleChildren
                    (sort_by_count actions (reverse_dependencies actions (act_id task)))
                    (stg + 1))
                 st'))"
  unfolding schedule_task_def by (subst schedule.simps) simp

text \<open>
  C7. If every agent of the roster is disallowed from the type of an action that needs
  at least one agent, or if the action's minimum is more than the number of roster agents
  qualified for its type, then every candidate stage fails, the stage search returns
  nothing and raises nothing, and so does the call of \<open>schedule_task\<close>: \<open>None\<close> is the
  run that does not end.
\<close>

theorem C7_unsatisfiable_search_never_ends:
  assumes "(list_all (\<lambda>agent. \<not> can_do_action agent (act_type task)) available_agents
              \<and> 0 < req_min task)
           \<or> int (length (filter (\<lambda>agent. can_do_action agent (act_type task)) available_agents))
                < req_min task"
  shows "(\<forall>s. try_stage rh task (qualified_free available_agents sa task s) = None) \<and>
         stage_search available_agents sa rh task stg = None \<and>
         schedule_task actions available_agents task stg st = None"
proof -
  have few: "int (length (filter (\<lambda>agent. can_do_action agent (act_type task)) available_agents))
               < req_min task"
  proof -
    have "filter (\<lambda>agent. can_do_action agent (act_type task)) available_agents = []"
      if "list_all (\<lambda>agent. \<not> can_do_action agent (act_type task)) available_agents"
      using that by (simp add: list_all_iff filter_empty_conv)
    with assms show ?thesis by auto
  qed
  have fails: "try_stage rh' task (qualified_free available_agents sa' task s) = None" for rh' sa' s
    using few length_qualified_free [of available_agents sa' task s]
    by (intro try_stage_None_few) linarith
  have "stage_search available_agents sa' rh' task stg = None" for rh' sa'
    by (rule stage_search_None) (rule fails)
  then show ?thesis
    using fails by (simp add: schedule_task_unfold)
qed

theorem C7_witness:
  "stage_search [no_attach_agent] [] Map.empty attach_action 1 = None \<and>
   schedule_task [attach_action] [no_attach_agent] attach_action 1 empty_state = None"
  using C7_unsatisfiable_search_never_ends
    [of attach_action "[no_attach_agent]" Map.empty "[]" 1 "[attach_action]" empty_state]
  by (simp add: can_do_action_def no_attach_agent_def attach_action_def)

lemma track_objects_nonempty:
  "assigned \<noteq> [] \<Longrightarrow> \<exists>rh'. track_objects objs assigned rh = Inr rh'"
  by (induction objs arbitrary: rh) (auto split: list.splits)

lemma record_assignment_nonempty:
  assumes "assigned \<noteq> []"
  shows "\<exists>st'. record_assignment task stg assigned st = Inr st' \<and>
           \<lparr>action_id = act_id task, assigned_agents = assigned, stage = stg,
            asg_description = description task\<rparr> \<in> set (dict_get (stage_assignments st') stg [])"
proof -
  have "\<exists>rh'. update_object_tracking task assigned (recent_handler st) = Inr rh'"
    using track_objects_nonempty [OF assms, of "objects task" "recent_handler st"]
    by (simp add: update_object_tracking_def)
  then obtain rh' where "update_object_tracking task assigned (recent_handler st) = Inr rh'"
    by blast
  then show ?thesis
    by (simp add: record_assignment_def Let_def dict_get_def update_conv')
qed

text \<open>
  C10. If the action's minimum is at most the number of (different) roster agents
  qualified for its type, the stage search ends, for every starting stage and every
  state of the assignments: it returns a stage that is no earlier than the starting
  stage and no later than any stage from there on that has no assignment yet, and there
  is such a stage. When the action needs at least one agent, recording the assignment
  succeeds and puts it into that stage.
\<close>

theorem C10_satisfiable_search_ends:
  assumes "req_min task
             \<le> int (card (set (filter (\<lambda>agent. can_do_action agent (act_type task)) available_agents)))"
  shows "\<exists>stg' assigned.
           stage_search available_agents (stage_assignments st) (recent_handler st) task stg
             = Some (stg', assigned) \<and>
           stg \<le> stg' \<and>
           (\<forall>e\<ge>stg. dict_get (stage_assignments st) e [] = [] \<longrightarrow> stg' \<le> e) \<and>
           (\<exists>e\<ge>stg. dict_get (stage_assignments st) e [] = []) \<and>
           (0 < req_min task \<longrightarrow>
              (\<exists>st'. record_assignment task stg' assigned st = Inr st' \<and>
                 \<lparr>action_id = act_id task, assigned_agents = assigned, stage = stg',
                  asg_description = description task\<rparr>
                   \<in> set (dict_get (stage_assignments st') stg' [])))"
proof -
  let ?sa = "stage_assignments st" and ?rh = "recent_handler st"
  have at_empty: "try_stage ?rh task (qualified_free available_agents ?sa task e) \<noteq> None"
    if "dict_get ?sa e [] = []" for e
    using assms by (simp add: qualified_free_empty_stage [OF that] try_stage_Some_enough)
  have reach: "\<exists>stg' assigned. stage_search available_agents ?sa ?rh task stg = Some (stg', assigned)
                 \<and> stg \<le> stg' \<and> stg' \<le> e"
    if "stg \<le> e" "dict_get ?sa e [] = []" for e
    using stage_search_reaches [OF at_empty [OF that(2)] that(1) refl] .
  obtain e0 where e0: "stg \<le> e0" "dict_get ?sa e0 [] = []"
    using empty_stage_exists [of stg ?sa] by blast
  from reach [OF e0] obtain stg' assigned where
    found: "stage_search available_agents ?sa ?rh task stg = Some (stg', assigned)" "stg \<le> stg'"
    by blast
  have bound: "stg' \<le> e" if "stg \<le> e" "dict_get ?sa e [] = []" for e
    using reach [OF that] found(1) by auto
  have recorded: "\<exists>st'. record_assignment task stg' assigned st = Inr st' \<and>
                 \<lparr>action_id = act_id task, assigned_agents = assigned, stage = stg',
                  asg_description = description task\<rparr>
                   \<in> set (dict_get (stage_assignments st') stg' [])"
    if "0 < req_min task"
  proof -
    from stage_search_sound [OF found(1)]
    have "try_stage ?rh task (qualified_free available_agents ?sa task stg') = Some assigned"
      by simp
    from try_stage_length(1) [OF this] that have "assigned \<noteq> []" by auto
    then show ?thesis by (rule record_assignment_nonempty)
  qed
  from found bound e0 recorded show ?thesis by blast
qed

theorem C10_witness:
  "\<exists>stg' assigned.
     stage_search chair_agents [] Map.empty attach_action 1 = Some (stg', assigned) \<and> stg' \<le> 1"
proof -
  have "req_min attach_action
          \<le> int (card (set (filter (\<lambda>agent. can_do_action agent (act_type attach_action)) chair_agents)))"
    by (simp add: attach_action_def chair_agents_def can_do_action_def)
  from C10_satisfiable_search_ends [OF this, of empty_state 1]
  show ?thesis by (auto simp: empty_state_def dict_get_def)
qed

text \<open>
  C2 as the spec states it: on the example, all six fetch actions are in stage 1, no two
  assignments of a stage share an agent, and action 7 is in stage 2 or later. The plan
  is returned, but the first part is false of it: three agents, one per fetch, cover
  three fetches in a stage.
\<close>

theorem C2_counterexample:
  "returns_with
     (\<lambda>res. \<not> (list_all (\<lambda>aid. stages_of_action res aid = [1])
                   [''1'', ''2'', ''3'', ''4'', ''5'', ''6''] \<and>
                 stage_agents_disjoint (stages res) \<and>
                 list_all (\<lambda>stg. 2 \<le> stg) (stages_of_action res ''7'')))
     (plan_parallel_actions chair_actions chair_agents Map.empty)"
  by code_simp

text \<open>
  C2, amended. On the example the plan puts the fetch actions 1, 2 and 3 in stage 1 and
  each of the fetch actions 4, 5 and 6 in one later stage; no two assignments of a stage
  share an agent; action 7 is in one stage, no earlier than stage 2.
\<close>

theorem C2_chair_plan_stages:
  "returns_with
     (\<lambda>res. list_all (\<lambda>aid. stages_of_action res aid = [1]) [''1'', ''2'', ''3''] \<and>
            list_all (\<lambda>aid. length (stages_of_action res aid) = 1 \<and>
                           list_all (\<lambda>stg. 1 < stg) (stages_of_action res aid))
              [''4'', ''5'', ''6''] \<and>
            stage_agents_disjoint (stages res) \<and>
            length (stages_of_action res ''7'') = 1 \<and>
            list_all (\<lambda>stg. 2 \<le> stg) (stages_of_action res ''7''))
     (plan_parallel_actions chair_actions chair_agents Map.empty)"
  by code_simp

text \<open>
  C6 as the spec states it fails on two fetches and one attach action: agent B is
  assigned to the fetch action 2, which touches \<open>chair_seat\<close>; action 7 is attempted
  later, needs one agent and touches \<open>chair_seat\<close>; it is placed in stage 2, where B is
  qualified and free (also after the call); the agent chosen is A, the handler of the
  object that action 7 names first.
\<close>

theorem C6_counterexample:
  "returns_with
     (\<lambda>res. stages_of_action res ''2'' = [1] \<and> agents_of_action res ''2'' = [[''B'']] \<and>
            stages_of_action res ''7'' = [2] \<and> agents_of_action res ''7'' = [[''A'']] \<and>
            req_min (back_seat_actions ! 2) = 1 \<and>
            ''chair_seat'' \<in> set (objects (back_seat_actions ! 1)) \<and>
            ''chair_seat'' \<in> set (objects (back_seat_actions ! 2)) \<and>
            two_agents ! 1 \<in> set (qualified_free two_agents (stages res) (back_seat_actions ! 2) 2) \<and>
            \<not> agents_of_action res ''7'' = [[agent_id (two_agents ! 1)]])
     (plan_parallel_actions back_seat_actions two_agents Map.empty)"
  by code_simp

lemma two_calls_differ:
  "returns_with (\<lambda>res. agents_of_action res ''2'' = [[''B'']])
     (plan_parallel_actions first_call_actions chair_agents Map.empty) \<and>
   handler_after (plan_parallel_actions first_call_actions chair_agents Map.empty) ''chair_seat''
     = Some (chair_agents ! 1) \<and>
   returns_with (\<lambda>res. agents_of_action res ''2'' = [[''B'']])
     (plan_parallel_actions second_call_actions chair_agents
        (handler_after (plan_parallel_actions first_call_actions chair_agents Map.empty))) \<and>
   returns_with (\<lambda>res. agents_of_action res ''2'' = [[''A'']])
     (plan_parallel_actions second_call_actions chair_agents Map.empty)"
  by code_simp

section \<open>Invariants of the scheduler\<close>

lemma schedule_children_Nil:
  "schedule actions available_agents (ScheduleChildren [] stg) st = Some (Inr st)"
  by (subst schedule.simps) simp

lemma schedule_children_Cons:
  "schedule actions available_agents (ScheduleChildren (child # rest) stg) st =
     (if ready st child then
        Option.bind (schedule_task actions available_agents child stg st)
          (\<lambda>r. case r of
                  Inl e \<Rightarrow> Some (Inl e)
                | Inr st' \<Rightarrow> schedule actions available_agents (ScheduleChildren rest stg) st')
      else schedule actions available_agents (ScheduleChildren rest stg) st)"
  unfolding schedule_task_def by (subst schedule.simps) simp

lemma set_sort_by_count [simp]: "set (sort_by_count actions xs) = set xs"
  by (simp add: sort_by_count_def)

lemma reverse_dependencies_subset: "set (reverse_dependencies actions aid) \<subseteq> set actions"
  by (auto simp: reverse_dependencies_def)

lemma schedule_preserves:
  assumes step: "\<And>task d stg assigned st st'.
      \<lbrakk>P st; task \<in> set actions; act_id task \<in> fst ` set (unassigned_actions st);
       stage_search ags (stage_assignments st) (recent_handler st) task d = Some (stg, assigned);
       record_assignment task stg assigned st = Inr st'\<rbrakk> \<Longrightarrow> P st'"
    and run: "schedule actions ags call st = Some r"
  shows "\<forall>st'. r = Inr st' \<longrightarrow> call_ok actions call st \<longrightarrow> P st \<longrightarrow> P st'"
proof -
  have "actions = actions \<longrightarrow> ags = ags \<longrightarrow>
          (\<forall>st'. r = Inr st' \<longrightarrow> call_ok actions call st \<longrightarrow> P st \<longrightarrow> P st')"
  proof (rule schedule.raw_induct
    [where P = "\<lambda>acts ags' call st r. acts = actions \<longrightarrow> ags' = ags \<longrightarrow>
                  (\<forall>st'. r = Inr st' \<longrightarrow> call_ok actions call st \<longrightarrow> P st \<longrightarrow> P st')",
     OF _ run], intro impI allI, goal_cases)
  case (1 f acts ags' call st r st')
  note IH = 1(1) [rule_format, OF _ refl refl refl]
  note body = 1(2) [unfolded 1(3) 1(4)]
  show ?case
  proof (cases call)
    case (ScheduleTask task d)
    with 1(6) have task: "task \<in> set actions" "act_id task \<in> fst ` set (unassigned_actions st)"
      by (auto simp: call_ok_def)
    from body ScheduleTask 1(5) obtain stg assigned st1 where
      found: "stage_search ags (stage_assignments st) (recent_handler st) task d = Some (stg, assigned)"
      and rec: "record_assignment task stg assigned st = Inr st1"
      and rest: "f actions ags (ScheduleChildren (sort_by_count actions (reverse_dependencies actions (act_id task))) (stg + 1)) st1 = Some (Inr st')"
      by (auto split: option.splits sum.splits)
    have "P st1" by (rule step [OF 1(7) task found rec])
    moreover have "call_ok actions (ScheduleChildren (sort_by_count actions (reverse_dependencies actions (act_id task))) (stg + 1)) st1"
      using reverse_dependencies_subset by (auto simp: call_ok_def)
    ultimately show ?thesis using IH [OF rest] by blast
  next
    case (ScheduleChildren children stg)
    show ?thesis
    proof (cases children)
      case Nil
      with body ScheduleChildren 1(5) 1(7) show ?thesis by simp
    next
      case (Cons child rest)
      with 1(6) ScheduleChildren have sub: "child \<in> set actions" "set rest \<subseteq> set actions"
        by (auto simp: call_ok_def)
      show ?thesis
      proof (cases "ready st child")
        case True
        with body ScheduleChildren Cons 1(5) obtain r1 where
          r1: "f actions ags (ScheduleTask child stg) st = Some r1"
              "(case r1 of Inl e \<Rightarrow> Some (Inl e)
                | Inr st1 \<Rightarrow> f actions ags (ScheduleChildren rest stg) st1) = Some (Inr st')"
          by (auto simp: bind_eq_Some_conv)
        then obtain st1 where
          first: "f actions ags (ScheduleTask child stg) st = Some (Inr st1)"
          and second: "f actions ags (ScheduleChildren rest stg) st1 = Some (Inr st')"
          by (cases r1) auto
        have "call_ok actions (ScheduleTask child stg) st"
          using True sub by (auto simp: call_ok_def ready_def)
        with IH [OF first] 1(7) have "P st1" by blast
        moreover have "call_ok actions (ScheduleChildren rest stg) st1"
          using sub by (auto simp: call_ok_def)
        ultimately show ?thesis using IH [OF second] by blast
      next
        case False
        with body ScheduleChildren Cons 1(5) have
          "f actions ags (ScheduleChildren rest stg) st = Some (Inr st')" by simp
        moreover have "call_ok actions (ScheduleChildren rest stg) st"
          using sub by (auto simp: call_ok_def)
        ultimately show ?thesis using IH 1(7) by blast
      qed
    qed
  qed
  qed
  then show ?thesis by simp
qed


lemma schedule_task_preserves:
  assumes step: "\<And>task d stg assigned st st'.
      \<lbrakk>P st; task \<in> set actions; act_id task \<in> fst ` set (unassigned_actions st);
       stage_search ags (stage_assignments st) (recent_handler st) task d = Some (stg, assigned);
       record_assignment task stg assigned st = Inr st'\<rbrakk> \<Longrightarrow> P st'"
    and run: "schedule_task actions ags task d st = Some (Inr st')"
    and task: "task \<in> set actions" "act_id task \<in> fst ` set (unassigned_actions st)"
    and P: "P st"
  shows "P st'"
  using schedule_preserves [of P actions ags "ScheduleTask task d" st "Inr st'", OF step]
    run task P
  by (simp add: schedule_task_def call_ok_def)

lemma schedule_roots_preserves:
  assumes step: "\<And>task d stg assigned st st'.
      \<lbrakk>P st; task \<in> set actions; act_id task \<in> fst ` set (unassigned_actions st);
       stage_search ags (stage_assignments st) (recent_handler st) task d = Some (stg, assigned);
       record_assignment task stg assigned st = Inr st'\<rbrakk> \<Longrightarrow> P st'"
  shows "schedule_roots actions ags tasks st = Some (Inr st') \<Longrightarrow> set tasks \<subseteq> set actions
           \<Longrightarrow> P st \<Longrightarrow> P st'"
proof (induction tasks arbitrary: st)
  case Nil
  then show ?case by simp
next
  case (Cons task rest)
  show ?case
  proof (cases "act_id task \<in> fst ` set (unassigned_actions st)")
    case True
    with Cons.prems(1) obtain st1 where
      first: "schedule_task actions ags task 1 st = Some (Inr st1)"
      and second: "schedule_roots actions ags rest st1 = Some (Inr st')"
      by (auto split: option.splits sum.splits)
    have "P st1"
      using schedule_task_preserves [of P actions ags task 1 st st1, OF step first _ True Cons.prems(3)]
        Cons.prems(2) by simp
    with Cons.IH [OF second] Cons.prems(2) show ?thesis by simp
  next
    case False
    with Cons.prems(1) have "schedule_roots actions ags rest st = Some (Inr st')" by simp
    with Cons.IH Cons.prems show ?thesis by simp
  qed
qed

lemma schedule_available_preserves:
  assumes step: "\<And>task d stg assigned st st'.
      \<lbrakk>P st; task \<in> set actions; act_id task \<in> fst ` set (unassigned_actions st);
       stage_search ags (stage_assignments st) (recent_handler st) task d = Some (stg, assigned);
       record_assignment task stg assigned st = Inr st'\<rbrakk> \<Longrightarrow> P st'"
  shows "schedule_available actions ags tasks st = Some (Inr st') \<Longrightarrow> set tasks \<subseteq> set actions
           \<Longrightarrow> P st \<Longrightarrow> P st'"
proof (induction tasks arbitrary: st)
  case Nil
  then show ?case by simp
next
  case (Cons task rest)
  show ?case
  proof (cases "act_id task \<in> fst ` set (unassigned_actions st)")
    case True
    with Cons.prems(1) obtain d st1 where
      first: "schedule_task actions ags task d st = Some (Inr st1)"
      and second: "schedule_available actions ags rest st1 = Some (Inr st')"
      by (auto split: option.splits sum.splits)
    have "P st1"
      using schedule_task_preserves [of P actions ags task d st st1, OF step first _ True Cons.prems(3)]
        Cons.prems(2) by simp
    with Cons.IH [OF second] Cons.prems(2) show ?thesis by simp
  next
    case False
    with Cons.prems(1) have "schedule_available actions ags rest st = Some (Inr st')" by simp
    with Cons.IH Cons.prems show ?thesis by simp
  qed
qed

lemma record_assignment_Inr:
  assumes "record_assignment task stg assigned st = Inr st'"
  shows "assigned_actions st' = (assigned_actions st)(act_id task \<mapsto> stg)"
    and "stage_assignments st' =
           AList.update stg
             (dict_get (stage_assignments st) stg [] @
              [\<lparr>action_id = act_id task, assigned_agents = assigned, stage = stg,
                asg_description = description task\<rparr>])
             (stage_assignments st)"
    and "unassigned_actions st' = AList.delete (act_id task) (unassigned_actions st)"
    and "update_object_tracking task assigned (recent_handler st) = Inr (recent_handler st')"
  using assms by (auto simp: record_assignment_def Let_def split: sum.splits)

lemma available_actions_subset: "set (available_actions st) \<subseteq> snd ` set (unassigned_actions st)"
  by (auto simp: available_actions_def)

lemma fallback_preserves_aux:
  assumes step: "\<And>task d stg assigned st st'.
      \<lbrakk>P st; task \<in> set actions; act_id task \<in> fst ` set (unassigned_actions st);
       stage_search ags (stage_assignments st) (recent_handler st) task d = Some (stg, assigned);
       record_assignment task stg assigned st = Inr st'\<rbrakk> \<Longrightarrow> P st'"
    and vals: "\<And>st. P st \<Longrightarrow> snd ` set (unassigned_actions st) \<subseteq> set actions"
    and run: "fallback actions ags st = Some r"
  shows "\<forall>st'. r = Inr st' \<longrightarrow> P st \<longrightarrow> P st' \<and> unassigned_actions st' = []"
proof -
  have "actions = actions \<longrightarrow> ags = ags \<longrightarrow>
          (\<forall>st'. r = Inr st' \<longrightarrow> P st \<longrightarrow> P st' \<and> unassigned_actions st' = [])"
  proof (rule fallback.raw_induct
      [where P = "\<lambda>acts ags' st r. acts = actions \<longrightarrow> ags' = ags \<longrightarrow>
                    (\<forall>st'. r = Inr st' \<longrightarrow> P st \<longrightarrow> P st' \<and> unassigned_actions st' = [])",
       OF _ run], intro impI allI, goal_cases)
    case (1 f acts ags' st r st')
    note IH = 1(1) [rule_format, OF _ refl refl refl]
    note body = 1(2) [unfolded 1(3) 1(4)]
    show ?case
    proof (cases "unassigned_actions st = []")
      case True
      with body 1(5) 1(6) show ?thesis by simp
    next
      case False
      with body 1(5) obtain r1 where
        r1: "schedule_available actions ags (sort_by_count actions (available_actions st)) st = Some r1"
            "(case r1 of Inl e \<Rightarrow> Some (Inl e) | Inr st1 \<Rightarrow> f actions ags st1) = Some (Inr st')"
        by (auto simp: bind_eq_Some_conv split: if_splits)
      then obtain st1 where
        first: "schedule_available actions ags (sort_by_count actions (available_actions st)) st = Some (Inr st1)"
        and second: "f actions ags st1 = Some (Inr st')"
        by (cases r1) auto
      have sub: "set (sort_by_count actions (available_actions st)) \<subseteq> set actions"
        using available_actions_subset [of st] vals [OF 1(6)] by auto
      have "P st1"
        by (rule schedule_available_preserves [of P actions ags, OF step first sub 1(6)])
      with IH [OF second] show ?thesis by blast
    qed
  qed
  then show ?thesis by simp
qed

lemma initial_unassigned_values:
  "snd ` set (fold (\<lambda>a d. AList.update (act_id a) a d) xs d0) \<subseteq> snd ` set d0 \<union> set xs"
proof (induction xs arbitrary: d0)
  case Nil
  then show ?case by simp
next
  case (Cons a xs)
  have "set (AList.update (act_id a) a d0) \<subseteq> insert (act_id a, a) (set d0)"
    by (induction d0) auto
  then have "snd ` set (AList.update (act_id a) a d0) \<subseteq> insert a (snd ` set d0)" by auto
  with Cons.IH [of "AList.update (act_id a) a d0"] show ?case by auto
qed

lemma plan_invariant:
  assumes step: "\<And>task d stg assigned st st'.
      \<lbrakk>P st; task \<in> set actions; act_id task \<in> fst ` set (unassigned_actions st);
       stage_search ags (stage_assignments st) (recent_handler st) task d = Some (stg, assigned);
       record_assignment task stg assigned st = Inr st'\<rbrakk> \<Longrightarrow> P st'"
    and init: "P (initial_state actions rh)"
    and run: "plan_parallel_actions actions ags rh = Some (Inr (res, rh'))"
  shows "\<exists>st. P st \<and> unassigned_actions st = [] \<and> stages res = stage_assignments st \<and>
              rh' = recent_handler st"
proof -
  let ?Q = "\<lambda>st. P st \<and> snd ` set (unassigned_actions st) \<subseteq> set actions"
  have stepQ: "?Q st'" if "?Q st" "task \<in> set actions"
      "act_id task \<in> fst ` set (unassigned_actions st)"
      "stage_search ags (stage_assignments st) (recent_handler st) task d = Some (stg, assigned)"
      "record_assignment task stg assigned st = Inr st'" for task d stg assigned st st'
  proof -
    have "set (AList.delete (act_id task) (unassigned_actions st)) \<subseteq> set (unassigned_actions st)"
      by (auto simp: AList.delete_eq)
    with that(1) record_assignment_Inr(3) [OF that(5)]
    have "snd ` set (unassigned_actions st') \<subseteq> set actions" by auto
    moreover have "P st'" using step [OF _ that(2-5)] that(1) by simp
    ultimately show ?thesis by simp
  qed
  from run obtain st0 st1 where
    roots: "schedule_roots actions ags (sort_by_count actions (root_tasks actions))
              (initial_state actions rh) = Some (Inr st0)"
    and fb: "fallback actions ags st0 = Some (Inr st1)"
    and res: "stages res = stage_assignments st1" "rh' = recent_handler st1"
    by (auto simp: plan_parallel_actions_def split: option.splits sum.splits)
  have "?Q (initial_state actions rh)"
    using init initial_unassigned_values [of actions "[]"] by (simp add: initial_state_def)
  moreover have "set (sort_by_count actions (root_tasks actions)) \<subseteq> set actions"
    by (auto simp: root_tasks_def)
  ultimately have "?Q st0"
    by (intro schedule_roots_preserves [of ?Q actions ags, OF stepQ roots]) auto
  moreover have "\<forall>st'. (Inr st1 :: error + sched_state) = Inr st' \<longrightarrow> ?Q st0 \<longrightarrow> ?Q st' \<and> unassigned_actions st' = []"
  proof (rule fallback_preserves_aux [where P = ?Q and actions = actions and ags = ags and st = st0 and r = "Inr st1"], goal_cases)
    case (1 task d stg assigned st st')
    then show ?case by (rule stepQ)
  next
    case (2 st)
    then show ?case by simp
  next
    case 3
    show ?case by (rule fb)
  qed
  ultimately show ?thesis using res by auto
qed

lemma set_update_cases: "p \<in> set (AList.update k v al) \<Longrightarrow> p = (k, v) \<or> p \<in> set al"
  by (induction al) (auto split: if_splits)

lemma dict_get_cases: "dict_get al k [] = [] \<or> (k, dict_get al k []) \<in> set al"
  by (auto simp: dict_get_def dest: map_of_SomeD split: option.splits)

lemma mset_all_assignments_update:
  "mset (all_assignments (AList.update k (dict_get al k [] @ [x]) al)) =
     mset (all_assignments al) + {#x#}"
  by (induction al) (auto simp: all_assignments_def dict_get_def)

lemma set_all_assignments_update:
  "set (all_assignments (AList.update k (dict_get al k [] @ [x]) al)) =
     insert x (set (all_assignments al))"
  using mset_all_assignments_update [of k al x, THEN arg_cong, of set_mset] by simp

lemma pairwise_disjoint_snoc:
  "pairwise_disjoint (xss @ [ys]) \<longleftrightarrow>
     pairwise_disjoint xss \<and> (\<forall>xs\<in>set xss. \<forall>x\<in>set xs. x \<notin> set ys)"
  by (induction xss) (auto simp: list_all_iff)

lemma step_disjoint:
  assumes P: "stage_agents_disjoint (stage_assignments st)"
    and found: "stage_search ags (stage_assignments st) (recent_handler st) task d = Some (stg, assigned)"
    and rec: "record_assignment task stg assigned st = Inr st'"
  shows "stage_agents_disjoint (stage_assignments st')"
proof -
  let ?sa = "stage_assignments st"
  let ?old = "dict_get ?sa stg []"
  let ?asg = "\<lparr>action_id = act_id task, assigned_agents = assigned, stage = stg,
               asg_description = description task\<rparr>"
  from stage_search_sound [OF found]
  have "try_stage (recent_handler st) task (qualified_free ags ?sa task stg) = Some assigned"
    by simp
  from try_stage_subset [OF this]
  have free: "set assigned \<subseteq> set (get_free_agents stg ?sa ags)"
    by (auto simp: qualified_free_def)
  have old: "pairwise_disjoint (agent_ids_of ?old)"
    using dict_get_cases [of ?sa stg] P
    by (auto simp: stage_agents_disjoint_def list_all_iff agent_ids_of_def)
  have "\<forall>xs\<in>set (agent_ids_of ?old). \<forall>x\<in>set xs. x \<notin> set (map agent_id assigned)"
  proof (intro ballI)
    fix xs x assume xs: "xs \<in> set (agent_ids_of ?old)" and x: "x \<in> set xs"
    from xs obtain old_asg where old_asg: "old_asg \<in> set ?old" "xs = map agent_id (assigned_agents old_asg)"
      by (auto simp: agent_ids_of_def)
    show "x \<notin> set (map agent_id assigned)"
    proof
      assume "x \<in> set (map agent_id assigned)"
      then obtain agent where agent: "agent \<in> set assigned" "x = agent_id agent" by auto
      with free have "\<forall>a\<in>set ?old. agent_id agent \<notin> agent_id ` set (assigned_agents a)"
        by (auto simp: get_free_agents_def)
      with old_asg x agent show False by auto
    qed
  qed
  with old have new: "pairwise_disjoint (agent_ids_of (?old @ [?asg]))"
    by (simp add: agent_ids_of_def pairwise_disjoint_snoc)
  show ?thesis
    unfolding record_assignment_Inr(2) [OF rec] stage_agents_disjoint_def list_all_iff
  proof
    fix p assume "p \<in> set (AList.update stg (?old @ [?asg]) ?sa)"
    from set_update_cases [OF this] new P
    show "case p of (stg, asgs) \<Rightarrow> pairwise_disjoint (agent_ids_of asgs)"
      by (auto simp: stage_agents_disjoint_def list_all_iff)
  qed
qed

lemma step_requirements:
  assumes P: "\<forall>asg\<in>set (all_assignments (stage_assignments st)).
                \<exists>a\<in>set actions. act_id a = action_id asg \<and> meets_requirement a asg"
    and task: "task \<in> set actions"
    and found: "stage_search ags (stage_assignments st) (recent_handler st) task d = Some (stg, assigned)"
    and rec: "record_assignment task stg assigned st = Inr st'"
  shows "\<forall>asg\<in>set (all_assignments (stage_assignments st')).
           \<exists>a\<in>set actions. act_id a = action_id asg \<and> meets_requirement a asg"
proof -
  let ?sa = "stage_assignments st"
  let ?asg = "\<lparr>action_id = act_id task, assigned_agents = assigned, stage = stg,
               asg_description = description task\<rparr>"
  from stage_search_sound [OF found]
  have tried: "try_stage (recent_handler st) task (qualified_free ags ?sa task stg) = Some assigned"
    by simp
  from try_stage_subset [OF tried]
  have "list_all (\<lambda>agent. disallowing_tag (act_type task) \<notin> set (constraints agent)) assigned"
    by (auto simp: qualified_free_def list_all_iff can_do_action_def disallowing_tag_def)
  moreover have "req_min task \<le> int (length assigned)"
    by (rule try_stage_length(1) [OF tried])
  moreover have "req_min task < 0 \<or> int (length assigned) = req_min task"
    using try_stage_length(2) [OF tried] by (cases "0 \<le> req_min task") simp_all
  ultimately have "meets_requirement task ?asg"
    by (simp add: meets_requirement_def)
  with task P show ?thesis
    unfolding record_assignment_Inr(2) [OF rec] set_all_assignments_update
    by auto
qed



lemma track_objects_frame:
  "track_objects objs assigned rh = Inr rh' \<Longrightarrow>
     dom rh \<subseteq> dom rh' \<and> (\<forall>obj. obj \<notin> set objs \<longrightarrow> rh' obj = rh obj)"
proof (induction objs arbitrary: rh)
  case Nil
  then show ?case by simp
next
  case (Cons obj objs)
  then obtain agent rest where "assigned = agent # rest"
    by (cases assigned) auto
  with Cons.prems have "track_objects objs assigned (rh(obj \<mapsto> agent)) = Inr rh'" by simp
  from Cons.IH [OF this]
  have sub: "dom (rh(obj \<mapsto> agent)) \<subseteq> dom rh'"
    and same: "\<forall>o'. o' \<notin> set objs \<longrightarrow> rh' o' = (rh(obj \<mapsto> agent)) o'"
    by blast+
  have "dom rh \<subseteq> dom (rh(obj \<mapsto> agent))" by auto
  with sub have "dom rh \<subseteq> dom rh'" by blast
  moreover from same have "\<forall>o'. o' \<notin> set (obj # objs) \<longrightarrow> rh' o' = rh o'" by simp
  ultimately show ?case by simp
qed

lemma update_object_tracking_frame:
  "update_object_tracking task assigned rh = Inr rh' \<Longrightarrow>
     dom rh \<subseteq> dom rh' \<and> (\<forall>obj. obj \<notin> set (objects task) \<longrightarrow> rh' obj = rh obj)"
  using track_objects_frame [of "objects task" assigned rh rh']
  by (auto simp: update_object_tracking_def split: if_splits)






lemma returns_withE:
  assumes "returns_with P r"
  obtains res rh' where "r = Some (Inr (res, rh'))" and "P res"
  using assms by (auto simp: returns_with_def split: option.splits sum.splits)

text \<open>
  C3. In every result of \<open>plan_parallel_actions\<close>, for every stage, no agent identifier
  is in the agent lists of two assignments of that stage.
\<close>

theorem C3_stage_agents_disjoint:
  assumes "plan_parallel_actions actions available_agents rh = Some (Inr (res, rh'))"
  shows "stage_agents_disjoint (stages res)"
proof -
  have "\<exists>st::sched_state. stage_agents_disjoint (stage_assignments st) \<and> unassigned_actions st = [] \<and>
             stages res = stage_assignments st \<and> rh' = recent_handler st"
  proof (rule plan_invariant
      [where P = "\<lambda>st. stage_agents_disjoint (stage_assignments st)" and actions = actions
         and ags = available_agents and rh = rh], goal_cases)
    case (1 task d stg assigned st st')
    show ?case by (rule step_disjoint [OF 1(1) 1(4) 1(5)])
  next
    case 2
    show ?case by (simp add: initial_state_def stage_agents_disjoint_def)
  next
    case 3
    show ?case by (rule assms)
  qed
  then show ?thesis by auto
qed

theorem C3_witness:
  "returns_with (\<lambda>res. stage_agents_disjoint (stages res))
     (plan_parallel_actions chair_actions chair_agents Map.empty)"
proof -
  from chair_plan obtain res rh' where
    r: "plan_parallel_actions chair_actions chair_agents Map.empty = Some (Inr (res, rh'))"
    by (rule returns_withE)
  from C3_stage_agents_disjoint [OF r] show ?thesis by (simp add: r returns_with_def)
qed

section \<open>Errors and the fallback pass\<close>








lemma fallback_unfold:
  "fallback actions ags st =
     (if unassigned_actions st = [] then Some (Inr st)
      else if available_actions st = []
      then Some (Inl (SchedulingStarvation (map fst (unassigned_actions st))))
      else Option.bind
             (schedule_available actions ags (sort_by_count actions (available_actions st)) st)
             (\<lambda>r. case r of Inl e \<Rightarrow> Some (Inl e) | Inr st' \<Rightarrow> fallback actions ags st'))"
  by (subst fallback.simps) simp














section \<open>The module state across calls\<close>

lemma step_handlers:
  assumes P: "dom rh \<subseteq> dom (recent_handler st) \<and>
              (\<forall>obj. (\<forall>a\<in>set actions. obj \<notin> set (objects a)) \<longrightarrow> recent_handler st obj = rh obj)"
    and task: "task \<in> set actions"
    and rec: "record_assignment task stg assigned st = Inr st'"
  shows "dom rh \<subseteq> dom (recent_handler st') \<and>
         (\<forall>obj. (\<forall>a\<in>set actions. obj \<notin> set (objects a)) \<longrightarrow> recent_handler st' obj = rh obj)"
proof -
  from update_object_tracking_frame [OF record_assignment_Inr(4) [OF rec]]
  have sub: "dom (recent_handler st) \<subseteq> dom (recent_handler st')"
    and same: "\<forall>obj. obj \<notin> set (objects task) \<longrightarrow> recent_handler st' obj = recent_handler st obj"
    by blast+
  from sub P have "dom rh \<subseteq> dom (recent_handler st')" by blast
  moreover have "recent_handler st' obj = rh obj"
    if "\<forall>a\<in>set actions. obj \<notin> set (objects a)" for obj
    using that same task P by auto
  ultimately show ?thesis by blast
qed

lemma second_call_keeps_back:
  "handler_after (plan_parallel_actions first_call_actions chair_agents Map.empty) ''chair_back''
     = Some (chair_agents ! 0) \<and>
   list_all (\<lambda>a. ''chair_back'' \<notin> set (objects a)) second_call_actions"
  by code_simp

text \<open>
  C8. \<open>recent_handler\<close> is an argument and a result of the call, which starts from the
  map it is given: after a call that returns, every object that had a handler has one,
  and the handler of an object that no input action touches is the one from before the
  call. A second call reads what the first call left: after the two fetches of the
  example, which leave agent B as the handler of \<open>chair_seat\<close>, the call for the second
  fetch alone assigns agent B, and the same call from an empty map assigns agent A.
\<close>

theorem C8_recent_handler_persists:
  "(plan_parallel_actions actions available_agents rh = Some (Inr (res, rh')) \<longrightarrow>
      dom rh \<subseteq> dom rh' \<and>
      (\<forall>obj. list_all (\<lambda>a. obj \<notin> set (objects a)) actions \<longrightarrow> rh' obj = rh obj)) \<and>
   handler_after (plan_parallel_actions first_call_actions chair_agents Map.empty) ''chair_seat''
     = Some (chair_agents ! 1) \<and>
   returns_with (\<lambda>res. agents_of_action res ''2'' = [[''B'']])
     (plan_parallel_actions second_call_actions chair_agents
        (handler_after (plan_parallel_actions first_call_actions chair_agents Map.empty))) \<and>
   returns_with (\<lambda>res. agents_of_action res ''2'' = [[''A'']])
     (plan_parallel_actions second_call_actions chair_agents Map.empty)"
proof (intro conjI impI)
  assume run: "plan_parallel_actions actions available_agents rh = Some (Inr (res, rh'))"
  let ?P = "\<lambda>st::sched_state. dom rh \<subseteq> dom (recent_handler st) \<and>
              (\<forall>obj. (\<forall>a\<in>set actions. obj \<notin> set (objects a)) \<longrightarrow> recent_handler st obj = rh obj)"
  have "\<exists>st::sched_state. ?P st \<and> unassigned_actions st = [] \<and>
             stages res = stage_assignments st \<and> rh' = recent_handler st"
  proof (rule plan_invariant
      [where P = ?P and actions = actions and ags = available_agents and rh = rh], goal_cases)
    case (1 task d stg assigned st st')
    show ?case by (rule step_handlers [OF 1(1) 1(2) 1(5)])
  next
    case 2
    show ?case by (simp add: initial_state_def)
  next
    case 3
    show ?case by (rule run)
  qed
  then show "dom rh \<subseteq> dom rh'"
    and "\<forall>obj. list_all (\<lambda>a. obj \<notin> set (objects a)) actions \<longrightarrow> rh' obj = rh obj"
    by (auto simp: list_all_iff)
qed (use two_calls_differ in simp_all)

theorem C8_witness:
  "handler_after
     (plan_parallel_actions second_call_actions chair_agents
        (handler_after (plan_parallel_actions first_call_actions chair_agents Map.empty)))
     ''chair_back''
   = Some (chair_agents ! 0)"
proof -
  let ?rh = "handler_after (plan_parallel_actions first_call_actions chair_agents Map.empty)"
  from two_calls_differ obtain res rh' where
    r: "plan_parallel_actions second_call_actions chair_agents ?rh = Some (Inr (res, rh'))"
    by (blast elim: returns_withE)
  from C8_recent_handler_persists [of second_call_actions chair_agents ?rh res rh'] r
    second_call_keeps_back
  have "rh' ''chair_back'' = Some (chair_agents ! 0)" by simp
  moreover have "handler_after (plan_parallel_actions second_call_actions chair_agents ?rh) = rh'"
    unfolding r by (simp add: handler_after_def)
  ultimately show ?thesis by simp
qed

section \<open>The preference for recent handlers\<close>

lemma preferred_fold_head:
  "\<exists>rest. fold (\<lambda>obj preferred. case rh obj of None \<Rightarrow> preferred
        | Some agent \<Rightarrow> if agent \<in> set free \<and> agent \<notin> set preferred
                        then preferred @ [agent] else preferred) objs (x # acc) = x # rest"
  by (induction objs arbitrary: acc) (auto split: option.splits)

lemma preferred_fold_none:
  "\<forall>obj\<in>set objs. \<forall>agent. rh obj = Some agent \<longrightarrow> agent \<notin> set free \<Longrightarrow>
   fold (\<lambda>obj preferred. case rh obj of None \<Rightarrow> preferred
        | Some agent \<Rightarrow> if agent \<in> set free \<and> agent \<notin> set preferred
                        then preferred @ [agent] else preferred) objs [] = []"
  by (induction objs) (auto split: option.splits)

lemma preferred_agents_head:
  assumes "\<forall>obj\<in>set before. \<forall>agent. rh obj = Some agent \<longrightarrow> agent \<notin> set free"
    and "rh obj = Some x" and "x \<in> set free"
  shows "\<exists>rest. preferred_agents rh (before @ obj # after) free = x # rest"
  using assms preferred_fold_head [where rh = rh and free = free and objs = after and x = x and acc = "[]"]
  by (simp add: preferred_agents_def preferred_fold_none)

text \<open>
  C6, amended. When a fetch action that touches an object is recorded, the first agent
  of its assignment becomes the object's handler. If an agent is the recorded handler of
  an object when a later action that requires exactly one agent and touches the object is
  attempted, the agent is qualified and free at the stage where that action is placed,
  and no object that the action lists before this one has a recorded handler that is
  qualified and free at that stage, then this agent, and no other, is chosen.
\<close>

theorem C6_first_free_handler_chosen:
  "(record_assignment fetch_task stg0 (x # others) st = Inr st' \<and>
    act_type fetch_task = ''fetch'' \<and> obj \<in> set (objects fetch_task)
      \<longrightarrow> recent_handler st' obj = Some x) \<and>
   (stage_search available_agents sa rh task desired = Some (stg, assigned) \<and>
    req_min task = 1 \<and> objects task = before @ obj # after \<and> rh obj = Some x \<and>
    x \<in> set (qualified_free available_agents sa task stg) \<and>
    (\<forall>obj'\<in>set before. \<forall>agent. rh obj' = Some agent
        \<longrightarrow> agent \<notin> set (qualified_free available_agents sa task stg))
      \<longrightarrow> assigned = [x])"
proof (intro conjI impI)
  assume a: "record_assignment fetch_task stg0 (x # others) st = Inr st' \<and>
    act_type fetch_task = ''fetch'' \<and> obj \<in> set (objects fetch_task)"
  have tracked: "track_objects objs (x # others) m = Inr m' \<Longrightarrow> obj \<in> set objs \<Longrightarrow> m' obj = Some x"
    for objs m m'
  proof (induction objs arbitrary: m)
    case Nil
    then show ?case by simp
  next
    case (Cons o' objs)
    then show ?case
      using track_objects_frame [of objs "x # others" "m(o' \<mapsto> x)" m']
      by (cases "obj \<in> set objs") auto
  qed
  from a record_assignment_Inr(4) [of fetch_task stg0 "x # others" st st']
  have "track_objects (objects fetch_task) (x # others) (recent_handler st) = Inr (recent_handler st')"
    by (simp add: update_object_tracking_def)
  from tracked [OF this] a show "recent_handler st' obj = Some x" by simp
next
  assume a: "stage_search available_agents sa rh task desired = Some (stg, assigned) \<and>
    req_min task = 1 \<and> objects task = before @ obj # after \<and> rh obj = Some x \<and>
    x \<in> set (qualified_free available_agents sa task stg) \<and>
    (\<forall>obj'\<in>set before. \<forall>agent. rh obj' = Some agent
        \<longrightarrow> agent \<notin> set (qualified_free available_agents sa task stg))"
  let ?free = "qualified_free available_agents sa task stg"
  from a stage_search_sound [of available_agents sa rh task desired "(stg, assigned)"]
  have tried: "try_stage rh task ?free = Some assigned" by simp
  from a preferred_agents_head
    [where before = before and rh = rh and free = ?free and obj = obj and x = x and after = after]
  obtain rest where "preferred_agents rh (objects task) ?free = x # rest" by auto
  with tried a show "assigned = [x]"
    by (simp add: try_stage_def Let_def slice_to_def)
qed

theorem C6_witness:
  "stage_search two_agents [] back_seat_handlers (back_seat_actions ! 2) 2
     = Some (2, [two_agents ! 0])"
proof -
  let ?assigned = "snd (the (stage_search two_agents [] back_seat_handlers (back_seat_actions ! 2) 2))"
  have s: "stage_search two_agents [] back_seat_handlers (back_seat_actions ! 2) 2
             = Some (2, ?assigned)"
    by code_simp
  have 1: "req_min (back_seat_actions ! 2) = 1"
    and 2: "objects (back_seat_actions ! 2) = [] @ ''chair_back'' # [''chair_seat'']"
    and 3: "back_seat_handlers ''chair_back'' = Some (two_agents ! 0)"
    and 4: "two_agents ! 0 \<in> set (qualified_free two_agents [] (back_seat_actions ! 2) 2)"
    by code_simp+
  from C6_first_free_handler_chosen
    [where available_agents = two_agents and sa = "[]" and rh = back_seat_handlers
       and task = "back_seat_actions ! 2" and desired = 2 and stg = 2 and assigned = ?assigned
       and before = "[]" and obj = "''chair_back''" and after = "[''chair_seat'']"
       and x = "two_agents ! 0"]
    s 1 2 3 4
  have "?assigned = [two_agents ! 0]" by simp
  with s show ?thesis by simp
qed

section \<open>The field \<open>req_max\<close>\<close>

lemma erase_max_fields [simp]:
  "act_id (erase_max a) = act_id a" "act_type (erase_max a) = act_type a"
  "objects (erase_max a) = objects a" "description (erase_max a) = description a"
  "req_min (erase_max a) = req_min a" "depends_on (erase_max a) = depends_on a"
  by (simp_all add: erase_max_def)

lemma erase_max_idem [simp]: "erase_max (erase_max a) = erase_max a"
  by (simp add: erase_max_def)

lemma erase_max_eqD:
  assumes "erase_max a = erase_max b"
  shows "act_id a = act_id b" "act_type a = act_type b" "objects a = objects b"
    "description a = description b" "req_min a = req_min b" "depends_on a = depends_on b"
  using erase_max_fields [of a] unfolding assms by simp_all

lemma erase_state_fields [simp]:
  "assigned_actions (erase_state st) = assigned_actions st"
  "stage_assignments (erase_state st) = stage_assignments st"
  "recent_handler (erase_state st) = recent_handler st"
  "unassigned_actions (erase_state st) = map (\<lambda>(aid, a). (aid, erase_max a)) (unassigned_actions st)"
  by (simp_all add: erase_state_def)

lemma erase_keys [simp]:
  "fst ` (\<lambda>x. case x of (aid, a) \<Rightarrow> (aid, erase_max a)) ` set d = fst ` set d"
  by (force simp: image_iff)

lemma erase_state_keys:
  "fst ` set (unassigned_actions (erase_state st)) = fst ` set (unassigned_actions st)"
  by simp

lemma reverse_dependencies_erase:
  "reverse_dependencies (map erase_max actions) aid = map erase_max (reverse_dependencies actions aid)"
  by (induction actions) (simp_all add: reverse_dependencies_def)

lemma dependency_count_erase:
  "dependency_count (map erase_max actions) aid = dependency_count actions aid"
  by (simp add: dependency_count_def reverse_dependencies_erase)

lemma insort_key_map:
  assumes "\<And>x. g (h x) = f x"
  shows "insort_key g (h x) (map h xs) = map h (insort_key f x xs)"
  by (induction xs) (simp_all add: assms)

lemma sort_key_map:
  assumes "\<And>x. g (h x) = f x"
  shows "sort_key g (map h xs) = map h (sort_key f xs)"
  by (induction xs) (simp_all add: insort_key_map [of g h f, OF assms])

lemma sort_by_count_erase:
  "sort_by_count (map erase_max actions) (map erase_max xs) = map erase_max (sort_by_count actions xs)"
  unfolding sort_by_count_def
  by (rule sort_key_map) (simp add: dependency_count_erase)

lemma root_tasks_erase: "root_tasks (map erase_max actions) = map erase_max (root_tasks actions)"
  by (simp add: root_tasks_def filter_map comp_def)

lemma update_erase:
  "AList.update k (erase_max a) (map (\<lambda>(aid, a). (aid, erase_max a)) d) =
     map (\<lambda>(aid, a). (aid, erase_max a)) (AList.update k a d)"
  by (induction d) auto

lemma initial_unassigned_erase:
  "fold (\<lambda>a d. AList.update (act_id a) a d) (map erase_max actions) (map (\<lambda>(aid, a). (aid, erase_max a)) d)
     = map (\<lambda>(aid, a). (aid, erase_max a)) (fold (\<lambda>a d. AList.update (act_id a) a d) actions d)"
  by (induction actions arbitrary: d) (simp_all add: update_erase)

lemma initial_state_erase:
  "initial_state (map erase_max actions) rh = erase_state (initial_state actions rh)"
  using initial_unassigned_erase [of actions "[]"]
  by (simp add: initial_state_def erase_state_def)

lemma delete_erase:
  "AList.delete k (map (\<lambda>(aid, a). (aid, erase_max a)) d) =
     map (\<lambda>(aid, a). (aid, erase_max a)) (AList.delete k d)"
  by (induction d) auto

lemma update_object_tracking_erase:
  "update_object_tracking (erase_max task) assigned rh = update_object_tracking task assigned rh"
  by (simp add: update_object_tracking_def)

lemma record_assignment_erase:
  "record_assignment (erase_max task) stg assigned (erase_state st) =
     map_sum id erase_state (record_assignment task stg assigned st)"
  by (cases "update_object_tracking task assigned (recent_handler st)")
    (simp_all add: record_assignment_def Let_def update_object_tracking_erase delete_erase
       erase_state_def)

lemma ready_erase: "ready (erase_state st) (erase_max child) = ready st child"
  by (simp add: ready_def)

lemma available_actions_erase:
  "available_actions (erase_state st) = map erase_max (available_actions st)"
  by (simp add: available_actions_def filter_map comp_def case_prod_beta)

lemma desired_stage_of_erase:
  "desired_stage_of (erase_state st) (erase_max task) = desired_stage_of st task"
  by (cases "depends_on task") (simp_all add: desired_stage_of_def)

lemma try_stage_erase: "try_stage rh (erase_max task) free = try_stage rh task free"
  by (simp add: try_stage_def)

lemma qualified_free_erase:
  "qualified_free ags sa (erase_max task) stg = qualified_free ags sa task stg"
  by (simp add: qualified_free_def)

lemma find_erase:
  "find (\<lambda>x. act_id x = aid) (map erase_max actions) =
     map_option erase_max (find (\<lambda>x. act_id x = aid) actions)"
  by (induction actions) simp_all

lemma missing_dependency_erase:
  "missing_dependency (map erase_max actions) = missing_dependency actions"
  by (simp add: missing_dependency_def comp_def)


lemma stage_search_sim:
  assumes run: "stage_search ags sa rh task d = Some r"
  shows "\<forall>task'. erase_max task' = erase_max task \<longrightarrow> stage_search ags sa rh task' d = Some r"
proof (rule stage_search.raw_induct
    [where P = "\<lambda>ags sa rh task d r.
       \<forall>task'. erase_max task' = erase_max task \<longrightarrow> stage_search ags sa rh task' d = Some r",
     OF _ run], intro allI impI, goal_cases)
  case (1 f ags sa rh task stg r task')
  have free: "qualified_free ags sa task' stg = qualified_free ags sa task stg"
    using qualified_free_erase [of ags sa task' stg] qualified_free_erase [of ags sa task stg] 1(3)
    by simp
  have tried: "try_stage rh task' free = try_stage rh task free" for free
    using try_stage_erase [of rh task' free] try_stage_erase [of rh task free] 1(3) by simp
  show ?case
  proof (cases "try_stage rh task (qualified_free ags sa task stg)")
    case None
    with 1(2) have "f ags sa rh task (stg + 1) = Some r" by (simp add: qualified_free_def)
    from 1(1) [OF this, rule_format, OF 1(3)] None show ?thesis
      by (subst stage_search_unfold) (simp add: free tried)
  next
    case (Some assigned)
    with 1(2) have "r = (stg, assigned)" by (simp add: qualified_free_def)
    with Some show ?thesis
      by (subst stage_search_unfold) (simp add: free tried)
  qed
qed

lemma stage_search_cong_erase:
  assumes "erase_max task' = erase_max task"
  shows "stage_search ags sa rh task' d = stage_search ags sa rh task d"
proof (cases "stage_search ags sa rh task d")
  case (Some r)
  with stage_search_sim [OF Some] assms show ?thesis by simp
next
  case None
  show ?thesis
  proof (cases "stage_search ags sa rh task' d")
    case (Some r)
    with stage_search_sim [OF Some] assms None show ?thesis by simp
  qed (simp add: None)
qed

lemma dfs_sim:
  assumes run: "dfs actions call visited path = Some r"
  shows "\<forall>actions'. map erase_max actions' = map erase_max actions
           \<longrightarrow> dfs actions' call visited path = Some r"
proof (rule dfs.raw_induct
    [where P = "\<lambda>actions call visited path r.
       \<forall>actions'. map erase_max actions' = map erase_max actions
           \<longrightarrow> dfs actions' call visited path = Some r",
     OF _ run], intro allI impI, goal_cases)
  case (1 f actions call visited path r actions')
  note IH = 1(1) [rule_format, OF _ 1(3)]
  have found: "map_option erase_max (find (\<lambda>x. act_id x = aid) actions') =
               map_option erase_max (find (\<lambda>x. act_id x = aid) actions)" for aid
    using find_erase [of aid actions'] find_erase [of aid actions] 1(3) by simp
  show ?case
  proof (cases call)
    case (HasCycle aid)
    show ?thesis
    proof (cases "find (\<lambda>x. act_id x = aid) actions")
      case None
      with found [of aid] have "find (\<lambda>x. act_id x = aid) actions' = None" by simp
      with None 1(2) HasCycle show ?thesis
        by (subst dfs.simps) (simp split: if_splits)
    next
      case (Some a)
      with found [of aid] obtain a' where
        a': "find (\<lambda>x. act_id x = aid) actions' = Some a'" "erase_max a' = erase_max a"
        by auto
      from erase_max_eqD(6) [OF a'(2)] have deps: "depends_on a' = depends_on a" .
      show ?thesis
      proof (cases "aid \<in> path \<or> aid \<in> visited")
        case True
        with 1(2) HasCycle show ?thesis by (subst dfs.simps) (auto split: if_splits)
      next
        case False
        with 1(2) HasCycle Some
        have "f actions (ForDeps aid (depends_on a)) (insert aid visited) (insert aid path) = Some r"
          by simp
        from IH [OF this] False HasCycle a'(1) deps show ?thesis
          by (subst dfs.simps) simp
      qed
    qed
  next
    case (ForDeps aid deps)
    show ?thesis
    proof (cases deps)
      case Nil
      with 1(2) ForDeps show ?thesis by (subst dfs.simps) simp
    next
      case (Cons dep rest)
      with 1(2) ForDeps obtain r1 where
        r1: "f actions (HasCycle dep) visited path = Some r1"
            "(case r1 of Inl e \<Rightarrow> Some (Inl e)
              | Inr (found, visited', path') \<Rightarrow>
                  if found then Some (Inr (True, visited', path'))
                  else f actions (ForDeps aid rest) visited' path') = Some r"
        by (auto simp: bind_eq_Some_conv)
      note first = IH [OF r1(1)]
      show ?thesis
      proof (cases r1)
        case (Inl e)
        with r1(2) first ForDeps Cons show ?thesis by (subst dfs.simps) auto
      next
        case (Inr t)
        obtain found' v' p' where t: "t = (found', v', p')" by (cases t)
        show ?thesis
        proof (cases found')
          case True
          with r1(2) first ForDeps Cons Inr t show ?thesis by (subst dfs.simps) auto
        next
          case False
          with r1(2) Inr t have "f actions (ForDeps aid rest) v' p' = Some r" by simp
          from IH [OF this] first ForDeps Cons Inr t False show ?thesis
            by (subst dfs.simps) auto
        qed
      qed
    qed
  qed
qed

lemma dfs_cong_erase:
  assumes "map erase_max actions' = map erase_max actions"
  shows "dfs actions' call visited path = dfs actions call visited path"
proof (cases "dfs actions call visited path")
  case (Some r)
  with dfs_sim [OF Some] assms show ?thesis by simp
next
  case None
  show ?thesis
  proof (cases "dfs actions' call visited path")
    case (Some r)
    with dfs_sim [OF Some] assms None show ?thesis by simp
  qed (simp add: None)
qed

lemma cycle_scan_cong_erase:
  assumes "map erase_max actions' = map erase_max actions"
  shows "map erase_max as' = map erase_max as \<Longrightarrow>
           cycle_scan actions' as' visited = cycle_scan actions as visited"
proof (induction as arbitrary: as' visited)
  case Nil
  then show ?case by simp
next
  case (Cons a as)
  then obtain a' rest' where as': "as' = a' # rest'" "erase_max a' = erase_max a"
    "map erase_max rest' = map erase_max as"
    by (cases as') auto
  from erase_max_eqD(1) [OF as'(2)] have "act_id a' = act_id a" .
  with Cons.IH [OF as'(3)] as'(1) dfs_cong_erase [OF assms] show ?case
    by (simp add: has_cycle_def split: option.splits sum.splits prod.splits)
qed

lemma validate_cong_erase:
  assumes "map erase_max actions' = map erase_max actions"
  shows "validate_dependencies actions' = validate_dependencies actions"
proof -
  have "missing_dependency actions' = missing_dependency actions"
    using missing_dependency_erase [of actions'] missing_dependency_erase [of actions] assms
    by simp
  with cycle_scan_cong_erase [OF assms assms] show ?thesis
    by (simp add: validate_dependencies_def split: option.splits)
qed


lemma erase_state_eqD:
  assumes "erase_state st' = erase_state st"
  shows "assigned_actions st' = assigned_actions st"
    "stage_assignments st' = stage_assignments st"
    "recent_handler st' = recent_handler st"
    "fst ` set (unassigned_actions st') = fst ` set (unassigned_actions st)"
    "(unassigned_actions st' = []) = (unassigned_actions st = [])"
    "map fst (unassigned_actions st') = map fst (unassigned_actions st)"
proof -
  show "assigned_actions st' = assigned_actions st"
    using erase_state_fields(1) [of st'] unfolding assms by simp
  show "stage_assignments st' = stage_assignments st"
    using erase_state_fields(2) [of st'] unfolding assms by simp
  show "recent_handler st' = recent_handler st"
    using erase_state_fields(3) [of st'] unfolding assms by simp
  have un: "map (\<lambda>(aid, a). (aid, erase_max a)) (unassigned_actions st')
          = map (\<lambda>(aid, a). (aid, erase_max a)) (unassigned_actions st)"
    using erase_state_fields(4) [of st'] unfolding assms by simp
  from arg_cong [OF this, of "map fst"]
  show keys: "map fst (unassigned_actions st') = map fst (unassigned_actions st)"
    by (simp add: comp_def case_prod_beta)
  from arg_cong [OF keys, of set]
  show "fst ` set (unassigned_actions st') = fst ` set (unassigned_actions st)" by simp
  from arg_cong [OF keys, of length]
  show "(unassigned_actions st' = []) = (unassigned_actions st = [])" by auto
qed

lemma schedule_ScheduleTask:
  "schedule actions ags (ScheduleTask task d) st =
     (case stage_search ags (stage_assignments st) (recent_handler st) task d of
        None \<Rightarrow> None
      | Some (stg, assigned) \<Rightarrow>
          (case record_assignment task stg assigned st of
             Inl e \<Rightarrow> Some (Inl e)
           | Inr st' \<Rightarrow>
               schedule actions ags
                 (ScheduleChildren
                    (sort_by_count actions (reverse_dependencies actions (act_id task)))
                    (stg + 1))
                 st'))"
  using schedule_task_unfold [of actions ags task d st] by (simp add: schedule_task_def)

lemma record_assignment_rel:
  assumes "erase_max task' = erase_max task" and "erase_state st' = erase_state st"
  shows "map_sum id erase_state (record_assignment task' stg assigned st') =
         map_sum id erase_state (record_assignment task stg assigned st)"
  using record_assignment_erase [of task' stg assigned st']
    record_assignment_erase [of task stg assigned st] assms
  by simp

lemma children_rel:
  assumes "map erase_max actions' = map erase_max actions" and "erase_max task' = erase_max task"
  shows "map erase_max (sort_by_count actions' (reverse_dependencies actions' (act_id task'))) =
         map erase_max (sort_by_count actions (reverse_dependencies actions (act_id task)))"
proof -
  have "map erase_max (sort_by_count acts (reverse_dependencies acts aid)) =
        sort_by_count (map erase_max acts) (reverse_dependencies (map erase_max acts) aid)"
    for acts aid
    by (simp add: sort_by_count_erase reverse_dependencies_erase)
  with assms erase_max_eqD(1) [OF assms(2)] show ?thesis by simp
qed

lemma ready_rel:
  assumes "erase_max child' = erase_max child" and "erase_state st' = erase_state st"
  shows "ready st' child' = ready st child"
  using ready_erase [of st' child'] ready_erase [of st child] assms by simp

lemma schedule_sim:
  assumes run: "schedule actions ags call st = Some r"
  shows "\<forall>actions' call' st'.
           map erase_max actions' = map erase_max actions \<longrightarrow>
           erase_call call' = erase_call call \<longrightarrow> erase_state st' = erase_state st \<longrightarrow>
           (\<exists>r'. schedule actions' ags call' st' = Some r' \<and>
                 map_sum id erase_state r' = map_sum id erase_state r)"
proof (rule schedule.raw_induct
    [where P = "\<lambda>actions ags call st r. \<forall>actions' call' st'.
           map erase_max actions' = map erase_max actions \<longrightarrow>
           erase_call call' = erase_call call \<longrightarrow> erase_state st' = erase_state st \<longrightarrow>
           (\<exists>r'. schedule actions' ags call' st' = Some r' \<and>
                 map_sum id erase_state r' = map_sum id erase_state r)",
     OF _ run], intro allI impI, goal_cases)
  case (1 f actions ags call st r actions' call' st')
  note IH = 1(1) [rule_format]
  note acts = 1(3) and st = 1(5)
  show ?case
  proof (cases call)
    case (ScheduleTask task d)
    with 1(4) obtain task' where call': "call' = ScheduleTask task' d"
      and task: "erase_max task' = erase_max task"
      by (cases call') auto
    from 1(2) ScheduleTask obtain stg assigned where
      found: "stage_search ags (stage_assignments st) (recent_handler st) task d = Some (stg, assigned)"
      and body: "(case record_assignment task stg assigned st of
                    Inl e \<Rightarrow> Some (Inl e)
                  | Inr st1 \<Rightarrow> f actions ags (ScheduleChildren (sort_by_count actions (reverse_dependencies actions (act_id task))) (stg + 1)) st1) = Some r"
      by (auto split: option.splits)
    have found': "stage_search ags (stage_assignments st') (recent_handler st') task' d = Some (stg, assigned)"
      using found stage_search_cong_erase [OF task] erase_state_eqD(2,3) [OF st] by simp
    note rec = record_assignment_rel [OF task st, of stg assigned]
    show ?thesis
    proof (cases "record_assignment task stg assigned st")
      case (Inl e)
      with rec have rec': "record_assignment task' stg assigned st' = Inl e"
        by (cases "record_assignment task' stg assigned st'") auto
      from Inl body have r: "r = Inl e" by simp
      have "schedule actions' ags (ScheduleTask task' d) st' = Some (Inl e)"
        unfolding schedule_ScheduleTask found' by (simp add: rec')
      with r call' show ?thesis by simp
    next
      case (Inr st1)
      with rec obtain st1' where rec': "record_assignment task' stg assigned st' = Inr st1'"
        and st1: "erase_state st1' = erase_state st1"
        by (cases "record_assignment task' stg assigned st'") auto
      let ?children = "sort_by_count actions (reverse_dependencies actions (act_id task))"
      let ?children' = "sort_by_count actions' (reverse_dependencies actions' (act_id task'))"
      from Inr body have "f actions ags (ScheduleChildren ?children (stg + 1)) st1 = Some r"
        by simp
      from IH [OF this acts _ st1, of "ScheduleChildren ?children' (stg + 1)"]
        children_rel [OF acts task]
      obtain r' where r': "schedule actions' ags (ScheduleChildren ?children' (stg + 1)) st1' = Some r'"
        "map_sum id erase_state r' = map_sum id erase_state r"
        by auto
      have "schedule actions' ags (ScheduleTask task' d) st' = Some r'"
        unfolding schedule_ScheduleTask found' by (simp add: rec' r'(1))
      with r'(2) call' show ?thesis by simp
    qed
  next
    case (ScheduleChildren children stg)
    with 1(4) obtain children' where call': "call' = ScheduleChildren children' stg"
      and children: "map erase_max children' = map erase_max children"
      by (cases call') auto
    show ?thesis
    proof (cases children)
      case Nil
      with children have "children' = []" by simp
      with Nil 1(2) ScheduleChildren call' st show ?thesis
        by (auto simp: schedule_children_Nil)
    next
      case (Cons child rest)
      with children obtain child' rest' where children': "children' = child' # rest'"
        and child: "erase_max child' = erase_max child"
        and rest: "map erase_max rest' = map erase_max rest"
        by (cases children') auto
      note rdy = ready_rel [OF child st]
      show ?thesis
      proof (cases "ready st child")
        case True
        with 1(2) ScheduleChildren Cons obtain r1 where
          r1: "f actions ags (ScheduleTask child stg) st = Some r1"
              "(case r1 of Inl e \<Rightarrow> Some (Inl e)
                | Inr st1 \<Rightarrow> f actions ags (ScheduleChildren rest stg) st1) = Some r"
          by (auto simp: bind_eq_Some_conv)
        from IH [OF r1(1) acts _ st, of "ScheduleTask child' stg"] child
        obtain r1' where r1': "schedule actions' ags (ScheduleTask child' stg) st' = Some r1'"
          "map_sum id erase_state r1' = map_sum id erase_state r1"
          by auto
        show ?thesis
        proof (cases r1)
          case (Inl e)
          with r1' have "r1' = Inl e" by (cases r1') auto
          with Inl r1(2) r1'(1) True rdy call' children' show ?thesis
            by (auto simp: schedule_children_Cons schedule_task_def)
        next
          case (Inr st1)
          with r1' obtain st1' where st1': "r1' = Inr st1'" "erase_state st1' = erase_state st1"
            by (cases r1') auto
          from Inr r1(2) have "f actions ags (ScheduleChildren rest stg) st1 = Some r" by simp
          from IH [OF this acts _ st1'(2), of "ScheduleChildren rest' stg"] rest
          obtain r' where "schedule actions' ags (ScheduleChildren rest' stg) st1' = Some r'"
            "map_sum id erase_state r' = map_sum id erase_state r"
            by auto
          with st1' r1'(1) True rdy call' children' show ?thesis
            by (auto simp: schedule_children_Cons schedule_task_def)
        qed
      next
        case False
        with 1(2) ScheduleChildren Cons
        have "f actions ags (ScheduleChildren rest stg) st = Some r" by simp
        from IH [OF this acts _ st, of "ScheduleChildren rest' stg"] rest
        obtain r' where "schedule actions' ags (ScheduleChildren rest' stg) st' = Some r'"
          "map_sum id erase_state r' = map_sum id erase_state r"
          by auto
        with False rdy call' children' show ?thesis
          by (auto simp: schedule_children_Cons)
      qed
    qed
  qed
qed

lemma schedule_task_rel:
  assumes acts: "map erase_max actions' = map erase_max actions"
    and task: "erase_max task' = erase_max task"
    and st: "erase_state st' = erase_state st"
  shows "map_option (map_sum id erase_state) (schedule_task actions' ags task' d st') =
         map_option (map_sum id erase_state) (schedule_task actions ags task d st)"
proof (cases "schedule_task actions ags task d st")
  case (Some r)
  with schedule_sim [of actions ags "ScheduleTask task d" st r, rule_format,
      OF _ acts _ st, of "ScheduleTask task' d"] task
  show ?thesis by (auto simp: schedule_task_def)
next
  case None
  show ?thesis
  proof (cases "schedule_task actions' ags task' d st'")
    case (Some r')
    with schedule_sim [of actions' ags "ScheduleTask task' d" st' r', rule_format,
      OF _ acts [symmetric] _ st [symmetric], of "ScheduleTask task d"] task None
    show ?thesis by (auto simp: schedule_task_def)
  qed (simp add: None)
qed


lemma map_sum_erase_cases:
  assumes "map_option (map_sum id erase_state) x' = map_option (map_sum id erase_state) x"
  shows "(x = None \<and> x' = None) \<or> (\<exists>e. x = Some (Inl e) \<and> x' = Some (Inl e)) \<or>
         (\<exists>st1 st1'. x = Some (Inr st1) \<and> x' = Some (Inr st1') \<and> erase_state st1' = erase_state st1)"
proof (cases x)
  case None
  with assms show ?thesis by simp
next
  case (Some r)
  with assms obtain r' where r': "x' = Some r'" "map_sum id erase_state r' = map_sum id erase_state r"
    by (cases x') auto
  with Some show ?thesis by (cases r; cases r') auto
qed

lemma schedule_roots_rel:
  assumes acts: "map erase_max actions' = map erase_max actions"
  shows "map erase_max tasks' = map erase_max tasks \<Longrightarrow> erase_state st' = erase_state st \<Longrightarrow>
         map_option (map_sum id erase_state) (schedule_roots actions' ags tasks' st') =
         map_option (map_sum id erase_state) (schedule_roots actions ags tasks st)"
proof (induction tasks arbitrary: tasks' st st')
  case Nil
  then show ?case by simp
next
  case (Cons task rest)
  then obtain task' rest' where tasks': "tasks' = task' # rest'"
    and task: "erase_max task' = erase_max task"
    and rest: "map erase_max rest' = map erase_max rest"
    by (cases tasks') auto
  note st = Cons.prems(2)
  have key: "(act_id task' \<in> fst ` set (unassigned_actions st')) =
             (act_id task \<in> fst ` set (unassigned_actions st))"
    using erase_max_eqD(1) [OF task] erase_state_eqD(4) [OF st] by simp
  show ?case
  proof (cases "act_id task \<in> fst ` set (unassigned_actions st)")
    case True
    from map_sum_erase_cases [OF schedule_task_rel [OF acts task st, of ags 1]]
    show ?thesis
      using True key tasks' Cons.IH [OF rest] by (elim disjE exE conjE) simp_all
  next
    case False
    with key tasks' Cons.IH [OF rest st] show ?thesis by simp
  qed
qed

lemma desired_stage_of_rel:
  assumes "erase_max task' = erase_max task" and "erase_state st' = erase_state st"
  shows "desired_stage_of st' task' = desired_stage_of st task"
  using desired_stage_of_erase [of st' task'] desired_stage_of_erase [of st task] assms by simp

lemma schedule_available_rel:
  assumes acts: "map erase_max actions' = map erase_max actions"
  shows "map erase_max tasks' = map erase_max tasks \<Longrightarrow> erase_state st' = erase_state st \<Longrightarrow>
         map_option (map_sum id erase_state) (schedule_available actions' ags tasks' st') =
         map_option (map_sum id erase_state) (schedule_available actions ags tasks st)"
proof (induction tasks arbitrary: tasks' st st')
  case Nil
  then show ?case by simp
next
  case (Cons task rest)
  then obtain task' rest' where tasks': "tasks' = task' # rest'"
    and task: "erase_max task' = erase_max task"
    and rest: "map erase_max rest' = map erase_max rest"
    by (cases tasks') auto
  note st = Cons.prems(2)
  have key: "(act_id task' \<in> fst ` set (unassigned_actions st')) =
             (act_id task \<in> fst ` set (unassigned_actions st))"
    using erase_max_eqD(1) [OF task] erase_state_eqD(4) [OF st] by simp
  note des = desired_stage_of_rel [OF task st]
  show ?case
  proof (cases "act_id task \<in> fst ` set (unassigned_actions st)")
    case True
    show ?thesis
    proof (cases "desired_stage_of st task")
      case (Inl e)
      with True key des tasks' show ?thesis by simp
    next
      case (Inr d)
      from map_sum_erase_cases [OF schedule_task_rel [OF acts task st, of ags d]]
      show ?thesis
        using True key des Inr tasks' Cons.IH [OF rest] by (elim disjE exE conjE) simp_all
    qed
  next
    case False
    with key tasks' Cons.IH [OF rest st] show ?thesis by simp
  qed
qed

lemma available_rel:
  assumes acts: "map erase_max actions' = map erase_max actions"
    and st: "erase_state st' = erase_state st"
  shows "map erase_max (sort_by_count actions' (available_actions st')) =
         map erase_max (sort_by_count actions (available_actions st))"
    and "(available_actions st' = []) = (available_actions st = [])"
proof -
  have av: "map erase_max (available_actions st') = map erase_max (available_actions st)"
    using available_actions_erase [of st'] available_actions_erase [of st] st by simp
  have "map erase_max (sort_by_count acts xs) = sort_by_count (map erase_max acts) (map erase_max xs)"
    for acts xs
    by (simp add: sort_by_count_erase)
  with av acts show "map erase_max (sort_by_count actions' (available_actions st')) =
         map erase_max (sort_by_count actions (available_actions st))"
    by simp
  from arg_cong [OF av, of length]
  show "(available_actions st' = []) = (available_actions st = [])" by auto
qed

lemma fallback_sim:
  assumes run: "fallback actions ags st = Some r"
  shows "\<forall>actions' st'.
           map erase_max actions' = map erase_max actions \<longrightarrow> erase_state st' = erase_state st \<longrightarrow>
           (\<exists>r'. fallback actions' ags st' = Some r' \<and>
                 map_sum id erase_state r' = map_sum id erase_state r)"
proof (rule fallback.raw_induct
    [where P = "\<lambda>actions ags st r. \<forall>actions' st'.
           map erase_max actions' = map erase_max actions \<longrightarrow> erase_state st' = erase_state st \<longrightarrow>
           (\<exists>r'. fallback actions' ags st' = Some r' \<and>
                 map_sum id erase_state r' = map_sum id erase_state r)",
     OF _ run], intro allI impI, goal_cases)
  case (1 f actions ags st r actions' st')
  note IH = 1(1) [rule_format]
  note acts = 1(3) and st = 1(4)
  note empty = erase_state_eqD(5) [OF st] and keys = erase_state_eqD(6) [OF st]
  note av = available_rel [OF acts st]
  show ?case
  proof (cases "unassigned_actions st = []")
    case True
    with 1(2) have "r = Inr st" by simp
    moreover from True empty have "fallback actions' ags st' = Some (Inr st')"
      by (subst fallback_unfold) simp
    ultimately show ?thesis using st by simp
  next
    case nonempty: False
    show ?thesis
    proof (cases "available_actions st = []")
      case True
      with 1(2) nonempty have "r = Inl (SchedulingStarvation (map fst (unassigned_actions st)))"
        by simp
      moreover from True nonempty empty av(2) keys
      have "fallback actions' ags st' = Some (Inl (SchedulingStarvation (map fst (unassigned_actions st))))"
        by (subst fallback_unfold) simp
      ultimately show ?thesis by simp
    next
      case False
      let ?run = "schedule_available actions ags (sort_by_count actions (available_actions st)) st"
      let ?run' = "schedule_available actions' ags (sort_by_count actions' (available_actions st')) st'"
      from 1(2) nonempty False obtain r1 where
        r1: "?run = Some r1"
            "(case r1 of Inl e \<Rightarrow> Some (Inl e) | Inr st1 \<Rightarrow> f actions ags st1) = Some r"
        by (auto simp: bind_eq_Some_conv)
      have unfold': "fallback actions' ags st' =
          Option.bind ?run' (\<lambda>r. case r of Inl e \<Rightarrow> Some (Inl e)
                                   | Inr st1 \<Rightarrow> fallback actions' ags st1)"
        using nonempty False empty av(2) by (subst fallback_unfold) simp
      from map_sum_erase_cases [OF schedule_available_rel [OF acts av(1) st, of ags]] r1(1)
      consider (err) e where "r1 = Inl e" "?run' = Some (Inl e)"
        | (ok) st1 st1' where "r1 = Inr st1" "?run' = Some (Inr st1')"
            "erase_state st1' = erase_state st1"
        by auto
      then show ?thesis
      proof cases
        case err
        with r1(2) unfold' show ?thesis by auto
      next
        case ok
        with r1(2) have "f actions ags st1 = Some r" by simp
        from IH [OF this acts ok(3)] ok(2) unfold' show ?thesis by simp
      qed
    qed
  qed
qed

lemma fallback_rel:
  assumes acts: "map erase_max actions' = map erase_max actions"
    and st: "erase_state st' = erase_state st"
  shows "map_option (map_sum id erase_state) (fallback actions' ags st') =
         map_option (map_sum id erase_state) (fallback actions ags st)"
proof (cases "fallback actions ags st")
  case (Some r)
  with fallback_sim [OF Some, rule_format, OF acts st] show ?thesis by auto
next
  case None
  show ?thesis
  proof (cases "fallback actions' ags st'")
    case (Some r')
    with fallback_sim [OF Some, rule_format, OF acts [symmetric] st [symmetric]] None
    show ?thesis by auto
  qed (simp add: None)
qed

lemma map_erase_cong:
  assumes "map erase_max actions' = map erase_max actions" and "\<And>a. f (erase_max a) = f a"
  shows "map f actions' = map f actions"
proof -
  have "map f xs = map f (map erase_max xs)" for xs by (simp add: assms(2))
  with assms(1) show ?thesis by metis
qed

lemma action_dependencies_rel:
  assumes "map erase_max actions' = map erase_max actions"
  shows "fold (\<lambda>a d. AList.update (act_id a) (depends_on a) d) actions' [] =
         fold (\<lambda>a d. AList.update (act_id a) (depends_on a) d) actions []"
proof -
  have aux: "fold (\<lambda>a d. AList.update (act_id a) (depends_on a) d) xs d =
        fold (\<lambda>(k, v) d. AList.update k v d) (map (\<lambda>a. (act_id a, depends_on a)) xs) d" for xs d
    by (induction xs arbitrary: d) simp_all
  have m: "map (\<lambda>a. (act_id a, depends_on a)) actions' = map (\<lambda>a. (act_id a, depends_on a)) actions"
    by (rule map_erase_cong [OF assms]) simp
  show ?thesis unfolding aux m by (rule refl)
qed

lemma plan_same_but_max:
  assumes "same_but_max actions' actions"
  shows "plan_parallel_actions actions' ags rh = plan_parallel_actions actions ags rh"
proof -
  from assms have acts: "map erase_max actions' = map erase_max actions"
    by (simp add: same_but_max_def)
  note valid = validate_cong_erase [OF acts]
  have roots: "map erase_max (sort_by_count actions' (root_tasks actions')) =
               map erase_max (sort_by_count actions (root_tasks actions))"
  proof -
    have "map erase_max (sort_by_count xs (root_tasks xs)) =
          sort_by_count (map erase_max xs) (root_tasks (map erase_max xs))" for xs
      by (simp add: sort_by_count_erase root_tasks_erase)
    with acts show ?thesis by simp
  qed
  have init: "erase_state (initial_state actions' rh) = erase_state (initial_state actions rh)"
    using initial_state_erase [of actions' rh] initial_state_erase [of actions rh] acts by simp
  note deps = action_dependencies_rel [OF acts]
  from map_sum_erase_cases [OF schedule_roots_rel [OF acts roots init, of ags]]
  show ?thesis
  proof (elim disjE exE conjE, goal_cases)
    case 1
    with valid show ?case by (simp add: plan_parallel_actions_def split: option.splits sum.splits)
  next
    case (2 e)
    with valid show ?case by (simp add: plan_parallel_actions_def split: option.splits sum.splits)
  next
    case (3 st0 st0')
    from map_sum_erase_cases [OF fallback_rel [OF acts 3(3), of ags]]
    show ?case
    proof (elim disjE exE conjE, goal_cases)
      case 1
      with 3 valid show ?case by (simp add: plan_parallel_actions_def split: option.splits sum.splits)
    next
      case (2 e)
      with 3 valid show ?case by (simp add: plan_parallel_actions_def split: option.splits sum.splits)
    next
      case (3 st1 st1')
      with \<open>schedule_roots actions ags (sort_by_count actions (root_tasks actions))
               (initial_state actions rh) = Some (Inr st0)\<close>
        \<open>schedule_roots actions' ags (sort_by_count actions' (root_tasks actions'))
               (initial_state actions' rh) = Some (Inr st0')\<close>
        valid deps erase_state_eqD(2,3) [OF 3(3)]
      show ?case by (simp add: plan_parallel_actions_def split: option.splits sum.splits)
    qed
  qed
qed

lemma mixed_plan:
  "returns_with (\<lambda>res. agents_of_action res ''7'' = [[''B'']])
     (plan_parallel_actions [attach_action] mixed_agents Map.empty)"
  by code_simp

text \<open>
  C4 as the spec states it says that the agent list has exactly the minimum number of
  agents. For an action whose minimum is \<open>-1\<close> the plan is returned with an assignment
  of no agent: the slice \<open>preferred[:-1]\<close> of the empty list.
\<close>

theorem C4_counterexample:
  "returns_with
     (\<lambda>res. map action_id (all_assignments (stages res)) = [''n''] \<and>
            \<not> list_all (\<lambda>asg. int (length (assigned_agents asg)) = req_min negative_min_action)
                 (all_assignments (stages res)))
     (plan_parallel_actions [negative_min_action] chair_agents Map.empty)"
  by code_simp

text \<open>
  C4, amended. In every result of \<open>plan_parallel_actions\<close>, every assignment is of an
  input action with its identifier such that the agent list has at least the action's
  minimum number of agents, exactly that number unless the minimum is negative, and the
  string \<open>can't_<type>\<close> for the action's type is among the constraints of no agent of
  the list. The field \<open>req_max\<close> does not affect the outcome: two inputs that differ
  only in \<open>req_max\<close> fields give the same result, the same error or no result alike.
\<close>

theorem C4_requirements_met:
  "(plan_parallel_actions actions available_agents rh = Some (Inr (res, rh'))
      \<longrightarrow> requirements_met actions res) \<and>
   (same_but_max actions' actions \<longrightarrow>
      plan_parallel_actions actions' available_agents rh
        = plan_parallel_actions actions available_agents rh)"
proof (intro conjI impI)
  assume run: "plan_parallel_actions actions available_agents rh = Some (Inr (res, rh'))"
  let ?P = "\<lambda>st::sched_state. \<forall>asg\<in>set (all_assignments (stage_assignments st)).
                \<exists>a\<in>set actions. act_id a = action_id asg \<and> meets_requirement a asg"
  have "\<exists>st::sched_state. ?P st \<and> unassigned_actions st = [] \<and>
             stages res = stage_assignments st \<and> rh' = recent_handler st"
  proof (rule plan_invariant
      [where P = ?P and actions = actions and ags = available_agents and rh = rh], goal_cases)
    case (1 task d stg assigned st st')
    show ?case by (rule step_requirements [OF 1(1) 1(2) 1(4) 1(5)])
  next
    case 2
    show ?case by (simp add: initial_state_def all_assignments_def)
  next
    case 3
    show ?case by (rule run)
  qed
  then show "requirements_met actions res"
    by (auto simp: requirements_met_def list_all_iff list_ex_iff)
next
  assume "same_but_max actions' actions"
  then show "plan_parallel_actions actions' available_agents rh
               = plan_parallel_actions actions available_agents rh"
    by (rule plan_same_but_max)
qed

theorem C4_witness:
  "returns_with (requirements_met [attach_action])
     (plan_parallel_actions [attach_action] mixed_agents Map.empty) \<and>
   plan_parallel_actions (map (\<lambda>a. a\<lparr>req_max := 9\<rparr>) chair_actions) chair_agents Map.empty
     = plan_parallel_actions chair_actions chair_agents Map.empty"
proof -
  from mixed_plan obtain res rh' where
    r: "plan_parallel_actions [attach_action] mixed_agents Map.empty = Some (Inr (res, rh'))"
    by (rule returns_withE)
  from C4_requirements_met [of "[attach_action]" mixed_agents Map.empty res rh'] r
  have "requirements_met [attach_action] res" by simp
  moreover have "same_but_max (map (\<lambda>a. a\<lparr>req_max := 9\<rparr>) chair_actions) chair_actions"
    by (simp add: same_but_max_def erase_max_def)
  with C4_requirements_met
    [where actions' = "map (\<lambda>a. a\<lparr>req_max := 9\<rparr>) chair_actions" and actions = chair_actions
       and available_agents = chair_agents and rh = Map.empty]
  have "plan_parallel_actions (map (\<lambda>a. a\<lparr>req_max := 9\<rparr>) chair_actions) chair_agents Map.empty
          = plan_parallel_actions chair_actions chair_agents Map.empty"
    by simp
  ultimately show ?thesis by (simp add: r returns_with_def)
qed

end
